theory Spec2Isabelle
  imports Complex_Main "HOL-Library.Sublist"
begin

section \<open>Checklist progress (SubmissionDetailPage, handleChecklistUpdate)\<close>

text \<open>
  The checklist items of a review as the page holds them. Only the fields that
  \<open>handleChecklistUpdate\<close> reads or overwrites are kept; section number, section name,
  deficiency level, assignee and notes are carried along unchanged by the source and take
  no part in any computation. \<open>item_id\<close> is the field \<open>id\<close> of the source.
  \<open>completeness_percent\<close> is \<open>None\<close> where the JavaScript value is \<open>null\<close>,
  \<open>undefined\<close> or the key is missing. Percentages are integers (the slider sends
  \<open>parseInt\<close> of its value), and JavaScript numbers are taken as exact.
\<close>

record ChecklistItem =
  item_id :: int
  is_applicable :: bool
  is_complete :: bool
  completeness_percent :: "int option"

text \<open>\<open>c.completeness_percent || 0\<close>: a missing value, and the falsy number 0, give 0.\<close>

definition or0 :: "int option \<Rightarrow> int" where
  "or0 v = (case v of None \<Rightarrow> 0 | Some n \<Rightarrow> n)"

text \<open>
  \<open>Math.round\<close>: the nearest integer, a tie going to the larger one.
\<close>

definition Math_round :: "real \<Rightarrow> int" where
  "Math_round x = \<lfloor>x + 1 / 2\<rfloor>"

text \<open>
  The value \<open>prog\<close> of the source:
  \<^verbatim>\<open>applicable.length ? Math.round(applicable.reduce((s, c) => s + (c.completeness_percent || 0), 0) / applicable.length) : 0\<close>
\<close>

definition prog :: "ChecklistItem list \<Rightarrow> int" where
  "prog newChecklist =
     (let applicable = filter is_applicable newChecklist in
      if length applicable \<noteq> 0
      then Math_round (real_of_int (foldl (\<lambda>s c. s + or0 (completeness_percent c)) 0 applicable)
                        / real (length applicable))
      else 0)"

text \<open>
  The answer of the PATCH request: the keys the server sent back. A key that is absent
  (\<open>None\<close>) leaves the item's field as it was in \<open>{ ...c, ...updated }\<close>.
\<close>

record ItemPatch =
  upd_item_id :: "int option"
  upd_is_applicable :: "bool option"
  upd_is_complete :: "bool option"
  upd_completeness_percent :: "int option option"

definition spread :: "ChecklistItem \<Rightarrow> ItemPatch \<Rightarrow> ChecklistItem" where
  "spread c updated =
     \<lparr> item_id = (case upd_item_id updated of None \<Rightarrow> item_id c | Some v \<Rightarrow> v),
       is_applicable = (case upd_is_applicable updated of None \<Rightarrow> is_applicable c | Some v \<Rightarrow> v),
       is_complete = (case upd_is_complete updated of None \<Rightarrow> is_complete c | Some v \<Rightarrow> v),
       completeness_percent =
         (case upd_completeness_percent updated of None \<Rightarrow> completeness_percent c | Some v \<Rightarrow> v) \<rparr>"

section \<open>Stream consumer (StreamingGenerator)\<close>

subsection \<open>Types\<close>

datatype GenerationPhase = idle | connecting | running | completed | error | cancelled

text \<open>
  \<open>SSEEvent\<close>, every field optional at run time (\<open>None\<close>: the key is absent). The
  fields carry the prefix \<open>ev_\<close> because \<open>percent\<close> is also a state variable of the
  component. A JSON value that is no object (a number, a string, an array) reads as an
  event with no field at all.
\<close>

record SSEEvent =
  ev_type :: "string option"
  ev_message :: "string option"
  ev_percent :: "int option"
  ev_text :: "string option"
  ev_submission_id :: "int option"
  ev_compliance_score :: "int option"
  ev_compliant :: "bool option"

text \<open>
  The \<open>useState\<close> variables of the component (\<open>previewExpanded\<close> only folds the
  preview and is left out), and the number of calls made to the two callback props.
\<close>

record Component =
  phase :: GenerationPhase
  percent :: int
  statusMessage :: string
  streamedText :: string
  complianceScore :: "int option"
  isCompliant :: "bool option"
  errorMessage :: string
  onComplete_calls :: nat
  onCancel_calls :: nat

text \<open>
  \<open>JSON.parse\<close> belongs to the platform and is a parameter of the model: it throws
  (\<open>SyntaxError\<close>), returns \<open>null\<close>, or returns a value read through \<open>SSEEvent\<close>.
\<close>

datatype json_result = SyntaxError | JsonNull | JsonEvent SSEEvent

type_synonym parser = "string \<Rightarrow> json_result"

text \<open>
  What the awaited \<open>fetch\<close> settles with when it was not aborted: a rejection with its
  message, a response that is not ok (status in decimal, status text), an ok response
  without a body, an ok response with a body.
\<close>

datatype fetch_result = FetchRejected string | NotOk string string | NoBody | Body

text \<open>
  Where one call of \<open>startGeneration\<close> stands: at \<open>await fetch\<close>, at
  \<open>await reader.read()\<close> with its local \<open>buffer\<close>, or returned. \<open>NoRun\<close> stands for
  a call that was never made.
\<close>

datatype stage = NoRun | Fetching | Reading string | Returned

text \<open>
  The component and every call of \<open>startGeneration\<close> made so far, in the order of the
  calls. A call keeps its place in the list, so its place names it. The read loop leaves
  only on \<open>done\<close> or on an exception, so a call may still be reading after its stream
  brought a \<open>completed\<close> or an \<open>error\<close> event, and also after a later call was made.
  \<open>abortRef.current\<close> is the controller of the last call.
\<close>

record consumer =
  ui :: Component
  runs :: "stage list"

text \<open>
  What can happen to the mounted component: a click on one of its three buttons, and for
  the call at a given place the pending \<open>fetch\<close> settling, or the pending
  \<open>reader.read()\<close> settling with decoded text, with \<open>done\<close>, or with a rejection.
\<close>

datatype happening =
    StartClick | CancelClick | ResetClick
  | Settled nat fetch_result
  | ReadValue nat string | ReadDone nat | ReadFailed nat string

subsection \<open>Strings\<close>

text \<open>
  Text is a \<open>string\<close> of bytes, the UTF-8 encoding of the JavaScript string (which is
  well formed: it comes out of the \<open>TextDecoder\<close>). The separators and the marker of
  the source are ASCII, so \<open>split\<close>, \<open>startsWith\<close> and \<open>slice\<close> cut the bytes where
  they cut the code units.
\<close>

definition ellipsis :: string where
  "ellipsis = [CHR 0xE2, CHR 0x80, CHR 0xA6]"

text \<open>
  \<open>String.prototype.split\<close> with a string separator: the separator is searched from left
  to right, the pieces between its occurrences are returned, and the empty separator cuts
  between all characters.
\<close>

fun str_split :: "string \<Rightarrow> string \<Rightarrow> string list" where
  "str_split sep [] = (if sep = [] then [] else [[]])"
| "str_split sep (c # s) =
     (if sep = [] then [c] # str_split sep s
      else if prefix sep (c # s) then [] # str_split sep (drop (length sep) (c # s))
      else (case str_split sep s of [] \<Rightarrow> [[c]] | p # ps \<Rightarrow> (c # p) # ps))"

text \<open>
  The code points that \<open>String.prototype.trim\<close> removes, each in UTF-8: the white space
  (U+0009, U+000B, U+000C, U+0020, U+00A0, U+FEFF and the other space separators U+1680,
  U+2000 to U+200A, U+202F, U+205F, U+3000) and the line terminators (U+000A, U+000D,
  U+2028, U+2029).
\<close>

definition white_space :: "string list" where
  "white_space =
     [[CHR 0x09], [CHR 0x0A], [CHR 0x0B], [CHR 0x0C], [CHR 0x0D], [CHR 0x20],
      [CHR 0xC2, CHR 0xA0],
      [CHR 0xE1, CHR 0x9A, CHR 0x80],
      [CHR 0xE2, CHR 0x80, CHR 0x80], [CHR 0xE2, CHR 0x80, CHR 0x81],
      [CHR 0xE2, CHR 0x80, CHR 0x82], [CHR 0xE2, CHR 0x80, CHR 0x83],
      [CHR 0xE2, CHR 0x80, CHR 0x84], [CHR 0xE2, CHR 0x80, CHR 0x85],
      [CHR 0xE2, CHR 0x80, CHR 0x86], [CHR 0xE2, CHR 0x80, CHR 0x87],
      [CHR 0xE2, CHR 0x80, CHR 0x88], [CHR 0xE2, CHR 0x80, CHR 0x89],
      [CHR 0xE2, CHR 0x80, CHR 0x8A],
      [CHR 0xE2, CHR 0x80, CHR 0xA8], [CHR 0xE2, CHR 0x80, CHR 0xA9],
      [CHR 0xE2, CHR 0x80, CHR 0xAF],
      [CHR 0xE2, CHR 0x81, CHR 0x9F],
      [CHR 0xE3, CHR 0x80, CHR 0x80],
      [CHR 0xEF, CHR 0xBB, CHR 0xBF]]"

text \<open>Removing, from the front, every leading occurrence of one of the given sequences.\<close>

function strip_start :: "string list \<Rightarrow> string \<Rightarrow> string" where
  "strip_start ws s =
     (case find (\<lambda>w. w \<noteq> [] \<and> prefix w s) ws of
        None \<Rightarrow> s
      | Some w \<Rightarrow> strip_start ws (drop (length w) s))"
  by pat_completeness auto
termination
proof (relation "measure (\<lambda>(ws, s). length s)")
  show "wf (measure (\<lambda>(ws, s). length s))" by simp
next
  fix ws :: "string list" and s w :: string
  assume "find (\<lambda>w. w \<noteq> [] \<and> prefix w s) ws = Some w"
  then have ne: "w \<noteq> []" and pre: "prefix w s" by (auto simp: find_Some_iff)
  from ne have "0 < length w" by simp
  moreover from pre have "length w \<le> length s" by (rule prefix_length_le)
  ultimately have "length s - length w < length s" by linarith
  then show "((ws, drop (length w) s), (ws, s)) \<in> measure (\<lambda>(ws, s). length s)" by simp
qed

text \<open>
  \<open>String.prototype.trim\<close>: the white space and line terminators are removed from both
  ends.
\<close>

definition trim :: "string \<Rightarrow> string" where
  "trim s = rev (strip_start (map rev white_space) (rev (strip_start white_space s)))"

subsection \<open>handleEvent, handleCancel and the state resets\<close>

definition handleEvent :: "SSEEvent \<Rightarrow> Component \<Rightarrow> Component" where
  "handleEvent event c =
     (if ev_type event = Some ''started'' then
        c\<lparr>statusMessage := (case ev_message event of None \<Rightarrow> ''Starting'' @ ellipsis | Some m \<Rightarrow> m),
          percent := 2\<rparr>
      else if ev_type event = Some ''progress'' then
        (let c1 = (case ev_percent event of None \<Rightarrow> c | Some p \<Rightarrow> c\<lparr>percent := p\<rparr>)
         in case ev_message event of
              None \<Rightarrow> c1
            | Some m \<Rightarrow> if m = [] then c1 else c1\<lparr>statusMessage := m\<rparr>)
      else if ev_type event = Some ''chunk'' then
        (case ev_text event of
           None \<Rightarrow> c
         | Some t \<Rightarrow> if t = [] then c else c\<lparr>streamedText := streamedText c @ t\<rparr>)
      else if ev_type event = Some ''completed'' then
        c\<lparr>percent := 100,
          phase := completed,
          statusMessage := (case ev_message event of None \<Rightarrow> ''Generation complete!'' | Some m \<Rightarrow> m),
          complianceScore :=
            (case ev_compliance_score event of None \<Rightarrow> complianceScore c | Some v \<Rightarrow> Some v),
          isCompliant := (case ev_compliant event of None \<Rightarrow> isCompliant c | Some b \<Rightarrow> Some b),
          onComplete_calls := Suc (onComplete_calls c)\<rparr>
      else if ev_type event = Some ''error'' then
        c\<lparr>phase := error,
          errorMessage :=
            (case ev_message event of None \<Rightarrow> ''An unknown error occurred.'' | Some m \<Rightarrow> m)\<rparr>
      else c)"

definition handleCancel :: "Component \<Rightarrow> Component" where
  "handleCancel c =
     c\<lparr>phase := cancelled, statusMessage := ''Cancelled by user.'',
       onCancel_calls := Suc (onCancel_calls c)\<rparr>"

text \<open>The \<open>useState\<close> initial values.\<close>

definition mounted :: Component where
  "mounted = \<lparr> phase = idle, percent = 0, statusMessage = [], streamedText = [],
       complianceScore = None, isCompliant = None, errorMessage = [],
       onComplete_calls = 0, onCancel_calls = 0 \<rparr>"

text \<open>The first statements of \<open>startGeneration\<close> (``Reset state'').\<close>

definition connect :: "Component \<Rightarrow> Component" where
  "connect c =
     c\<lparr>phase := connecting, percent := 0,
       statusMessage := ''Connecting to generation service'' @ ellipsis,
       streamedText := [], errorMessage := [], complianceScore := None, isCompliant := None\<rparr>"

text \<open>The \<open>onClick\<close> of the Retry / Regenerate button.\<close>

definition retry :: "Component \<Rightarrow> Component" where
  "retry c =
     c\<lparr>phase := idle, percent := 0, statusMessage := [], streamedText := [],
       errorMessage := [], complianceScore := None, isCompliant := None\<rparr>"

text \<open>The two branches of the \<open>catch\<close> of \<open>startGeneration\<close>.\<close>

definition catch_abort :: "Component \<Rightarrow> Component" where
  "catch_abort c = c\<lparr>phase := cancelled, statusMessage := ''Generation cancelled.''\<rparr>"

definition catch_error :: "string \<Rightarrow> Component \<Rightarrow> Component" where
  "catch_error msg c =
     c\<lparr>phase := error, errorMessage := (if msg = [] then ''Unknown error'' else msg)\<rparr>"

definition isActive :: "Component \<Rightarrow> bool" where
  "isActive c = (phase c = running \<or> phase c = connecting)"

definition isTerminal :: "Component \<Rightarrow> bool" where
  "isTerminal c = (phase c = completed \<or> phase c = error \<or> phase c = cancelled)"

text \<open>
  What is shown of the compliance score: the banner is rendered when the phase is
  \<open>completed\<close> and the score is not \<open>null\<close>.
\<close>

definition displayed_score :: "Component \<Rightarrow> int option" where
  "displayed_score c = (if phase c = completed then complianceScore c else None)"

subsection \<open>The read loop of startGeneration\<close>

text \<open>The stage of the call at place \<open>i\<close>, and the place of the last call.\<close>

definition stage_of :: "consumer \<Rightarrow> nat \<Rightarrow> stage" where
  "stage_of s i = (if i < length (runs s) then runs s ! i else NoRun)"

definition latest :: "consumer \<Rightarrow> nat" where
  "latest s = length (runs s) - 1"

text \<open>
  The message of the \<open>TypeError\<close> that reading \<open>event.type\<close> of \<open>null\<close> throws (the
  wording is the engine's; this is V8's).
\<close>

definition null_type_error :: string where
  "null_type_error =
     ''Cannot read properties of null (reading '' @ [CHR 0x27] @ ''type'' @ [CHR 0x27] @ '')''"

text \<open>
  The body of the inner \<open>for\<close> loop of the call at place \<open>i\<close>, for one line that passed
  both \<open>continue\<close> tests: \<open>JSON.parse\<close> in its \<open>try\<close>, then \<open>handleEvent\<close>. An
  exception of \<open>handleEvent\<close> leaves both loops for the \<open>catch\<close> of
  \<open>startGeneration\<close>; the lines that follow in the same read find the call returned and
  are not looked at.
\<close>

definition deliver :: "parser \<Rightarrow> nat \<Rightarrow> string \<Rightarrow> consumer \<Rightarrow> consumer" where
  "deliver parse i raw s =
     (case stage_of s i of
        Reading buffer \<Rightarrow>
          (case parse raw of
             SyntaxError \<Rightarrow> s
           | JsonNull \<Rightarrow>
               \<lparr> ui = catch_error null_type_error (ui s), runs = (runs s)[i := Returned] \<rparr>
           | JsonEvent event \<Rightarrow> s\<lparr>ui := handleEvent event (ui s)\<rparr>)
      | _ \<Rightarrow> s)"

text \<open>
  The lines of one part that reach \<open>JSON.parse\<close>: those that start with \<open>data: \<close>,
  cut after the marker and trimmed, and not empty then.
\<close>

definition payloads :: "string \<Rightarrow> string list" where
  "payloads part =
     filter (\<lambda>raw. raw \<noteq> [])
       (map (\<lambda>line. trim (drop (length ''data: '') line))
          (filter (prefix ''data: '') (str_split ''\<newline>'' part)))"

text \<open>
  One step of the component. A button acts only while it is rendered. \<open>StartClick\<close>
  is a new call of \<open>startGeneration\<close>, which overwrites \<open>abortRef.current\<close>; the
  earlier calls stay where they are. \<open>CancelClick\<close> runs \<open>handleCancel\<close>; its
  \<open>abort()\<close> reaches the last call only, and rejects its pending \<open>fetch\<close> or \<open>read\<close>
  with an \<open>AbortError\<close> before anything else is delivered, so the \<open>catch\<close> of that
  call runs right after and the call has returned.
\<close>

fun step :: "parser \<Rightarrow> happening \<Rightarrow> consumer \<Rightarrow> consumer" where
  "step parse StartClick s =
     (if phase (ui s) = idle then \<lparr> ui = connect (ui s), runs = runs s @ [Fetching] \<rparr> else s)"
| "step parse CancelClick s =
     (if isActive (ui s) then
        (case stage_of s (latest s) of
           Fetching \<Rightarrow>
             \<lparr> ui = catch_abort (handleCancel (ui s)), runs = (runs s)[latest s := Returned] \<rparr>
         | Reading buffer \<Rightarrow>
             \<lparr> ui = catch_abort (handleCancel (ui s)), runs = (runs s)[latest s := Returned] \<rparr>
         | _ \<Rightarrow> s\<lparr>ui := handleCancel (ui s)\<rparr>)
      else s)"
| "step parse ResetClick s = (if isTerminal (ui s) then s\<lparr>ui := retry (ui s)\<rparr> else s)"
| "step parse (Settled i r) s =
     (case stage_of s i of
        Fetching \<Rightarrow>
          (case r of
             FetchRejected msg \<Rightarrow>
               \<lparr> ui = catch_error msg (ui s), runs = (runs s)[i := Returned] \<rparr>
           | NotOk status statusText \<Rightarrow>
               \<lparr> ui = catch_error (''Server returned '' @ status @ '': '' @ statusText) (ui s),
                 runs = (runs s)[i := Returned] \<rparr>
           | NoBody \<Rightarrow>
               \<lparr> ui = catch_error ''Response has no readable body'' (ui s),
                 runs = (runs s)[i := Returned] \<rparr>
           | Body \<Rightarrow> \<lparr> ui = (ui s)\<lparr>phase := running\<rparr>, runs = (runs s)[i := Reading []] \<rparr>)
      | _ \<Rightarrow> s)"
| "step parse (ReadValue i v) s =
     (case stage_of s i of
        Reading buffer \<Rightarrow>
          (let parts = str_split ''\<newline>\<newline>'' (buffer @ v)
           in fold (deliver parse i) (concat (map payloads (butlast parts)))
                (s\<lparr>runs := (runs s)[i := Reading (last parts)]\<rparr>))
      | _ \<Rightarrow> s)"
| "step parse (ReadDone i) s =
     (case stage_of s i of
        Reading buffer \<Rightarrow> s\<lparr>runs := (runs s)[i := Returned]\<rparr>
      | _ \<Rightarrow> s)"
| "step parse (ReadFailed i msg) s =
     (case stage_of s i of
        Reading buffer \<Rightarrow> \<lparr> ui = catch_error msg (ui s), runs = (runs s)[i := Returned] \<rparr>
      | _ \<Rightarrow> s)"

definition steps :: "parser \<Rightarrow> happening list \<Rightarrow> consumer \<Rightarrow> consumer" where
  "steps parse hs s = fold (step parse) hs s"

definition initial :: consumer where
  "initial = \<lparr> ui = mounted, runs = [] \<rparr>"


subsection \<open>What a run delivers\<close>

text \<open>
  What a \<open>chunk\<close> event adds to \<open>streamedText\<close>: its \<open>text\<close>; every other event, and a
  chunk without text, adds nothing.
\<close>

definition chunk_text :: "SSEEvent \<Rightarrow> string" where
  "chunk_text event =
     (if ev_type event = Some ''chunk'' then (case ev_text event of None \<Rightarrow> [] | Some t \<Rightarrow> t) else [])"

text \<open>
  The payloads handed to \<open>JSON.parse\<close> over successive reads, in order, and the
  \<open>buffer\<close> left after the last read: the loop of \<open>startGeneration\<close> without the
  dispatch.
\<close>

fun read_all :: "string \<Rightarrow> string list \<Rightarrow> string list \<times> string" where
  "read_all buffer [] = ([], buffer)"
| "read_all buffer (v # vs) =
     (let parts = str_split ''\<newline>\<newline>'' (buffer @ v);
          rest = read_all (last parts) vs
      in (concat (map payloads (butlast parts)) @ fst rest, snd rest))"

text \<open>
  Whether a call has its request or its stream still open, whether the call at place
  \<open>i\<close> stands at \<open>await reader.read()\<close>, and that call with another buffer.
\<close>

definition pending :: "stage \<Rightarrow> bool" where
  "pending st = (case st of Fetching \<Rightarrow> True | Reading b \<Rightarrow> True | _ \<Rightarrow> False)"

definition reading :: "consumer \<Rightarrow> nat \<Rightarrow> bool" where
  "reading s i = (case stage_of s i of Reading b \<Rightarrow> True | _ \<Rightarrow> False)"

definition with_buffer :: "nat \<Rightarrow> string \<Rightarrow> consumer \<Rightarrow> consumer" where
  "with_buffer i buffer s =
     (case stage_of s i of
        Reading b \<Rightarrow> s\<lparr>runs := (runs s)[i := Reading buffer]\<rparr>
      | _ \<Rightarrow> s)"

subsection \<open>Phase transitions\<close>

text \<open>What makes the phase change.\<close>

datatype trigger =
    StartRequest | SuccessfulResponse | CompletedEvent | ErrorEvent
  | TransportFailure | ClientCancellation | RetryRequest

text \<open>
  The transitions as the specification lists them: idle to connecting on a start request,
  connecting to running on a successful response, running to completed on a
  \<open>completed\<close> event, running to error on an \<open>error\<close> event or a transport failure,
  running or connecting to cancelled on cancellation.
\<close>

definition listed_transitions :: "(GenerationPhase \<times> trigger \<times> GenerationPhase) list" where
  "listed_transitions =
     [(idle, StartRequest, connecting),
      (connecting, SuccessfulResponse, running),
      (running, CompletedEvent, completed),
      (running, ErrorEvent, error),
      (running, TransportFailure, error),
      (running, ClientCancellation, cancelled),
      (connecting, ClientCancellation, cancelled)]"

definition listed_moves :: "(GenerationPhase \<times> GenerationPhase) list" where
  "listed_moves = map (\<lambda>(p, t, q). (p, q)) listed_transitions"

text \<open>
  The transitions of the source: those, and connecting to error when the request fails
  (the \<open>throw\<close> statements after \<open>fetch\<close> and its rejection, caught at the end of
  \<open>startGeneration\<close>), and back to idle from the three final phases by the Retry /
  Regenerate button.
\<close>

definition code_transitions :: "(GenerationPhase \<times> trigger \<times> GenerationPhase) list" where
  "code_transitions =
     listed_transitions
     @ [(connecting, TransportFailure, error),
        (completed, RetryRequest, idle),
        (error, RetryRequest, idle),
        (cancelled, RetryRequest, idle)]"

fun trigger_of :: "happening \<Rightarrow> trigger option" where
  "trigger_of StartClick = Some StartRequest"
| "trigger_of CancelClick = Some ClientCancellation"
| "trigger_of ResetClick = Some RetryRequest"
| "trigger_of (Settled i Body) = Some SuccessfulResponse"
| "trigger_of (Settled i r) = Some TransportFailure"
| "trigger_of (ReadFailed i msg) = Some TransportFailure"
| "trigger_of (ReadDone i) = None"
| "trigger_of (ReadValue i v) = None"

definition payload_trigger :: "parser \<Rightarrow> string \<Rightarrow> trigger option" where
  "payload_trigger parse raw =
     (case parse raw of
        JsonEvent event \<Rightarrow>
          if ev_type event = Some ''completed'' then Some CompletedEvent
          else if ev_type event = Some ''error'' then Some ErrorEvent
          else None
      | _ \<Rightarrow> None)"

text \<open>
  The last call is the only one whose request or stream may still be open, and it has
  not read past an event that ended it: while its request is pending the phase is
  \<open>connecting\<close>, while its body is read the phase is \<open>running\<close>.
\<close>

definition in_order :: "consumer \<Rightarrow> bool" where
  "in_order s =
     (list_all (\<lambda>st. \<not> pending st) (butlast (runs s))
      \<and> (case stage_of s (latest s) of
           Fetching \<Rightarrow> phase (ui s) = connecting
         | Reading buffer \<Rightarrow> phase (ui s) = running
         | _ \<Rightarrow> True))"

section \<open>Review workflow (SubmissionDetailPage)\<close>

subsection \<open>The page\<close>

text \<open>
  Modelled from the spec: the statuses of a review record. The page shows the field and
  sends \<open>approved\<close> and \<open>rejected\<close>; the other two names are the specification's.
\<close>

datatype ReviewStatus = draft | active | approved | rejected

text \<open>A review as the page holds it (\<open>review_id\<close> is the field \<open>id\<close>).\<close>

record ReviewRecord =
  review_id :: int
  review_round :: nat
  reviewer_name :: string
  status :: ReviewStatus
  overall_progress :: int
  overall_notes :: string
  checklist :: "ChecklistItem list"

datatype Tab = overview_tab | documents_tab | checklist_tab | history_tab

text \<open>
  The state variables of the page that the review handlers use; \<open>page_error\<close> is the
  state variable \<open>error\<close>.
\<close>

record Page =
  reviews :: "ReviewRecord list"
  activeReview :: "ReviewRecord option"
  tab :: Tab
  page_error :: string

text \<open>
  \<open>handleChecklistUpdate\<close>, given what the PATCH request came back with: an error text
  (\<open>apiFetch\<close> threw) or the keys of the updated item.
\<close>

definition handleChecklistUpdate :: "int \<Rightarrow> string + ItemPatch \<Rightarrow> Page \<Rightarrow> Page" where
  "handleChecklistUpdate itemId response p =
     (case activeReview p of
        None \<Rightarrow> p
      | Some prev \<Rightarrow>
          (case response of
             Inl err \<Rightarrow> p\<lparr>page_error := err\<rparr>
           | Inr updated \<Rightarrow>
               (let newChecklist =
                      map (\<lambda>c. if item_id c = itemId then spread c updated else c) (checklist prev)
                in p\<lparr>activeReview :=
                       Some (prev\<lparr>checklist := newChecklist, overall_progress := prog newChecklist\<rparr>)\<rparr>)))"

text \<open>The body of the POST request of \<open>handleCreateReview\<close>.\<close>

record CreateRequest =
  req_reviewer_name :: string
  req_review_round :: nat

definition create_request :: "Page \<Rightarrow> CreateRequest" where
  "create_request p =
     \<lparr> req_reviewer_name = ''Kevin Admin'', req_review_round = length (reviews p) + 1 \<rparr>"

text \<open>
  \<open>handleCreateReview\<close>, given the answers of its two requests (the created review,
  then the review in full).
\<close>

definition handleCreateReview ::
  "string + ReviewRecord \<Rightarrow> string + ReviewRecord \<Rightarrow> Page \<Rightarrow> Page" where
  "handleCreateReview posted fetched p =
     (case posted of
        Inl err \<Rightarrow> p\<lparr>page_error := err\<rparr>
      | Inr rev' \<Rightarrow>
          (case fetched of
             Inl err \<Rightarrow> p\<lparr>page_error := err\<rparr>
           | Inr full \<Rightarrow> p\<lparr>activeReview := Some full, reviews := reviews p @ [rev'], tab := checklist_tab\<rparr>))"

text \<open>
  The two buttons that call \<open>handleCreateReview\<close> are rendered on the overview and the
  checklist tab while \<open>activeReview\<close> is null.
\<close>

definition start_review_shown :: "Page \<Rightarrow> bool" where
  "start_review_shown p =
     ((tab p = overview_tab \<or> tab p = checklist_tab) \<and> activeReview p = None)"

text \<open>
  The body of the PATCH request of the Approve and the Request Revision button; both are
  rendered on the checklist tab while a review is active, whatever its status and
  progress.
\<close>

record StatusPatch =
  patch_review_id :: int
  patch_status :: ReviewStatus
  patch_overall_notes :: string

definition approve_click :: "Page \<Rightarrow> StatusPatch option" where
  "approve_click p =
     (case activeReview p of
        None \<Rightarrow> None
      | Some r \<Rightarrow>
          if tab p = checklist_tab
          then Some \<lparr> patch_review_id = review_id r, patch_status = approved,
                 patch_overall_notes = ''Submission approved after review'' \<rparr>
          else None)"

definition reject_click :: "Page \<Rightarrow> StatusPatch option" where
  "reject_click p =
     (case activeReview p of
        None \<Rightarrow> None
      | Some r \<Rightarrow>
          if tab p = checklist_tab
          then Some \<lparr> patch_review_id = review_id r, patch_status = rejected,
                 patch_overall_notes = ''Revision required - see checklist notes'' \<rparr>
          else None)"

subsection \<open>The server side\<close>

text \<open>
  Modelled from the spec: the terminal states of a review, approved and rejected.
\<close>

definition terminal :: "ReviewStatus \<Rightarrow> bool" where
  "terminal st = (st = approved \<or> st = rejected)"

text \<open>
  Modelled from the spec: the server's handler of the status PATCH, which is not among the
  sources. Approval and rejection are allowed from any non-terminal state regardless of
  the completion percent; a terminal review is left alone.
\<close>

definition apply_status_patch :: "StatusPatch \<Rightarrow> ReviewRecord \<Rightarrow> ReviewRecord option" where
  "apply_status_patch patch r =
     (if \<not> terminal (status r) \<and> terminal (patch_status patch)
      then Some (r\<lparr>status := patch_status patch, overall_notes := patch_overall_notes patch\<rparr>)
      else None)"

text \<open>
  Modelled from the spec: the server's handler of a checklist item update, which is not
  among the sources. The progress is recomputed from the items after the write, a draft
  becomes active once an item is touched, and no percentage makes a review approved or
  rejected.
\<close>

definition apply_item_update :: "ChecklistItem list \<Rightarrow> ReviewRecord \<Rightarrow> ReviewRecord" where
  "apply_item_update items r =
     r\<lparr>checklist := items, overall_progress := prog items,
       status := (if status r = draft then active else status r)\<rparr>"

text \<open>
  Modelled from the spec: the round number the server gives a new review, larger than
  every round number of the submission so far.
\<close>

definition next_round :: "ReviewRecord list \<Rightarrow> nat" where
  "next_round rounds = Suc (foldr max (map review_round rounds) 0)"

text \<open>
  Modelled from the spec: a review just created, in draft with its checklist seeded.
\<close>

definition seeded :: "int \<Rightarrow> nat \<Rightarrow> string \<Rightarrow> ChecklistItem list \<Rightarrow> ReviewRecord" where
  "seeded rid n reviewer items =
     \<lparr> review_id = rid, review_round = n, reviewer_name = reviewer, status = draft,
       overall_progress = 0, overall_notes = [], checklist = items \<rparr>"

text \<open>
  Modelled from the spec: the server's handler of the POST that starts a review round,
  which is not among the sources. A round may start only when the submission has no
  round yet, or its latest round is terminal or was abandoned; what counts as abandoned
  is a parameter, the specification does not say.
\<close>

definition start_round ::
  "(ReviewRecord \<Rightarrow> bool) \<Rightarrow> int \<Rightarrow> string \<Rightarrow> ChecklistItem list \<Rightarrow> ReviewRecord list
     \<Rightarrow> ReviewRecord list option" where
  "start_round abandoned rid reviewer items rounds =
     (if rounds = [] \<or> terminal (status (last rounds)) \<or> abandoned (last rounds)
      then Some (rounds @ [seeded rid (next_round rounds) reviewer items])
      else None)"

section \<open>Example data\<close>

text \<open>
  A checklist of 20 items: 18 applicable ones whose percentages sum to 1440, and two
  items marked not applicable.
\<close>

definition scenario_A :: "ChecklistItem list" where
  "scenario_A =
     map (\<lambda>v. \<lparr> item_id = 0, is_applicable = True, is_complete = False, completeness_percent = Some v \<rparr>)
       [100, 100, 100, 100, 100, 100, 100, 100, 100, 100, 100, 100, 90, 70, 50, 30, 0, 0]
     @ [\<lparr> item_id = 19, is_applicable = False, is_complete = False, completeness_percent = Some 100 \<rparr>,
        \<lparr> item_id = 20, is_applicable = False, is_complete = False, completeness_percent = None \<rparr>]"

text \<open>A checklist with one applicable item whose percentage is missing.\<close>

definition three_items :: "ChecklistItem list" where
  "three_items =
     [\<lparr> item_id = 1, is_applicable = True, is_complete = False, completeness_percent = Some 50 \<rparr>,
      \<lparr> item_id = 2, is_applicable = True, is_complete = False, completeness_percent = None \<rparr>,
      \<lparr> item_id = 3, is_applicable = True, is_complete = True, completeness_percent = Some 100 \<rparr>]"

text \<open>An event with only its type.\<close>

definition event :: "string \<Rightarrow> SSEEvent" where
  "event t = \<lparr> ev_type = Some t, ev_message = None, ev_percent = None, ev_text = None,
       ev_submission_id = None, ev_compliance_score = None, ev_compliant = None \<rparr>"

text \<open>
  The events of one run: started, progress at 25, three chunks, completed with score 92.
\<close>

definition scenario_B :: "SSEEvent list" where
  "scenario_B =
     [event ''started'',
      (event ''progress'')\<lparr>ev_percent := Some 25\<rparr>,
      (event ''chunk'')\<lparr>ev_text := Some ''Sec''\<rparr>,
      (event ''chunk'')\<lparr>ev_text := Some ''tion 1''\<rparr>,
      (event ''chunk'')\<lparr>ev_text := Some ''...''\<rparr>,
      (event ''completed'')\<lparr>ev_percent := Some 100, ev_compliance_score := Some 92,
         ev_compliant := Some True\<rparr>]"

text \<open>A stand-in for \<open>JSON.parse\<close> on the payloads of the examples.\<close>

definition sample_parse :: parser where
  \<open>sample_parse raw =
     (if raw = ''{"type":"started"}'' then JsonEvent (event ''started'')
      else if raw = ''{"type":"chunk","text":"Sec"}'' then
        JsonEvent ((event ''chunk'')\<lparr>ev_text := Some ''Sec''\<rparr>)
      else if raw = ''{"type":"chunk","text":"tion 1"}'' then
        JsonEvent ((event ''chunk'')\<lparr>ev_text := Some ''tion 1''\<rparr>)
      else if raw = ''{"type":"completed","percent":100,"compliance_score":92,"compliant":true}'' then
        JsonEvent ((event ''completed'')\<lparr>ev_percent := Some 100, ev_compliance_score := Some 92,
          ev_compliant := Some True\<rparr>)
      else if raw = ''{"type":"error"}'' then JsonEvent (event ''error'')
      else if raw = ''null'' then JsonNull
      else SyntaxError)\<close>

definition completed_raw :: string where
  \<open>completed_raw = ''{"type":"completed","percent":100,"compliance_score":92,"compliant":true}''\<close>

text \<open>The consumer after the start, a successful response and the \<open>started\<close> frame.\<close>

definition started_run :: consumer where
  \<open>started_run =
     steps sample_parse
       [StartClick, Settled 0 Body, ReadValue 0 ''data: {"type":"started"}\<newline>\<newline>'']
       initial\<close>

text \<open>Two frames and the start of a third, cut into three reads inside the frames.\<close>

definition three_reads :: "string list" where
  \<open>three_reads =
     [''data: {"type":"chunk","text":"Sec"}\<newline>'',
      ''\<newline>data: {"type":"chu'',
      ''nk","text":"tion 1"}\<newline>\<newline>data: {"ty'']\<close>


definition chunk_frame :: string where
  \<open>chunk_frame = ''data: {"type":"chunk","text":"Sec"}\<newline>\<newline>''\<close>

text \<open>A frame whose payload is the JSON text \<open>null\<close>.\<close>

definition null_frame :: string where
  "null_frame = ''data: null\<newline>\<newline>''"

text \<open>The server answers the request with status 500.\<close>

definition refused :: happening where
  "refused = Settled 0 (NotOk ''500'' ''Internal Server Error'')"

text \<open>Single frames: the completed event, an error event, the started event.\<close>

definition completed_frame :: string where
  \<open>completed_frame =
     ''data: {"type":"completed","percent":100,"compliance_score":92,"compliant":true}\<newline>\<newline>''\<close>

definition error_frame :: string where
  \<open>error_frame = ''data: {"type":"error"}\<newline>\<newline>''\<close>

definition started_frame :: string where
  \<open>started_frame = ''data: {"type":"started"}\<newline>\<newline>''\<close>

text \<open>A first call whose stream brought the completed event and stays open.\<close>

definition completed_once :: "happening list" where
  "completed_once = [StartClick, Settled 0 Body, ReadValue 0 completed_frame]"

text \<open>Then the user presses Regenerate and starts again.\<close>

definition restarted :: "happening list" where
  "restarted = completed_once @ [ResetClick, StartClick]"

text \<open>
  Then the second call gets its response and the started event, and the user cancels.
\<close>

definition second_run_cancelled :: "happening list" where
  "second_run_cancelled =
     restarted @ [Settled 1 Body, ReadValue 1 started_frame, CancelClick]"

text \<open>A review in draft, the page showing it, and the answer to a checklist update.\<close>

definition sample_review :: ReviewRecord where
  "sample_review = seeded 7 1 ''Kevin Admin'' three_items"

definition sample_page :: Page where
  "sample_page = \<lparr> reviews = [sample_review], activeReview = Some sample_review,
       tab = checklist_tab, page_error = [] \<rparr>"

definition full_patch :: ItemPatch where
  "full_patch = \<lparr> upd_item_id = None, upd_is_applicable = None, upd_is_complete = Some True,
       upd_completeness_percent = Some (Some 100) \<rparr>"

text \<open>A submission whose first round was approved, then a second round; nothing abandoned.\<close>

definition never_abandoned :: "ReviewRecord \<Rightarrow> bool" where
  "never_abandoned r = False"

definition first_round :: "ReviewRecord list" where
  "first_round = [(seeded 7 1 ''Kevin Admin'' three_items)\<lparr>status := approved\<rparr>]"

definition two_rounds :: "ReviewRecord list" where
  "two_rounds = first_round @ [seeded 8 2 ''Kevin Admin'' three_items]"

section \<open>Properties of the checklist progress\<close>

subsection \<open>Helper facts\<close>

lemma foldl_or0_sum:
  "foldl (\<lambda>s c. s + or0 (completeness_percent c)) a xs
     = a + sum_list (map (\<lambda>c. or0 (completeness_percent c)) xs)"
  by (induction xs arbitrary: a) simp_all

lemma Math_round_div:
  assumes "0 < n"
  shows "Math_round (real_of_int s / real n) = (2 * s + int n) div (2 * int n)"
proof -
  have "real_of_int s / real n + 1 / 2 = real_of_int (2 * s + int n) / real_of_int (2 * int n)"
    using assms by (simp add: field_simps)
  then show ?thesis
    unfolding Math_round_def by (simp only: floor_divide_of_int_eq)
qed

lemma prog_formula:
  "prog items =
     (let xs = map (\<lambda>c. or0 (completeness_percent c)) (filter is_applicable items) in
      if xs = [] then 0 else (2 * sum_list xs + int (length xs)) div (2 * int (length xs)))"
  by (simp add: prog_def Let_def foldl_or0_sum Math_round_div)


lemma prog_cong:
  assumes "map is_applicable xs = map is_applicable ys"
    and "map (\<lambda>c. or0 (completeness_percent c)) xs = map (\<lambda>c. or0 (completeness_percent c)) ys"
  shows "prog xs = prog ys"
proof -
  have "map (\<lambda>c. or0 (completeness_percent c)) (filter is_applicable xs)
      = map (\<lambda>c. or0 (completeness_percent c)) (filter is_applicable ys)"
    using assms
  proof (induction xs arbitrary: ys)
    case Nil
    then show ?case by simp
  next
    case (Cons x xs)
    then obtain y ys' where ys: "ys = y # ys'" by (cases ys) auto
    with Cons show ?case by auto
  qed
  then show ?thesis by (simp add: prog_formula)
qed

subsection \<open>The recomputed progress\<close>

text \<open>
  C1. The recomputed progress keeps the items whose \<open>is_applicable\<close> is true. With none
  left the result is 0. Otherwise it is the arithmetic mean of their
  \<open>completeness_percent\<close> rounded to the nearest integer, a tie going up: it is
  \<open>round\<close> of the mean, and lies in the half-open interval from the mean minus one half
  (excluded) to the mean plus one half (included). With 18 applicable items whose values
  sum to 1440 the result is 80.
\<close>

theorem prog_rounded_mean:
  fixes items :: "ChecklistItem list"
  shows "(filter is_applicable items = [] \<longrightarrow> prog items = 0)
    \<and> (filter is_applicable items \<noteq> [] \<longrightarrow>
         (let vs = map (\<lambda>c. or0 (completeness_percent c)) (filter is_applicable items);
              mean = real_of_int (sum_list vs) / real (length vs)
          in prog items = round mean
             \<and> mean - 1 / 2 < real_of_int (prog items) \<and> real_of_int (prog items) \<le> mean + 1 / 2))
    \<and> (length (filter is_applicable items) = 18
         \<and> sum_list (map (\<lambda>c. or0 (completeness_percent c)) (filter is_applicable items)) = 1440
         \<longrightarrow> prog items = 80)"
proof (intro conjI impI)
  assume "filter is_applicable items = []"
  then show "prog items = 0" by (simp add: prog_def)
next
  assume ne: "filter is_applicable items \<noteq> []"
  define vs where "vs = map (\<lambda>c. or0 (completeness_percent c)) (filter is_applicable items)"
  define mean where "mean = real_of_int (sum_list vs) / real (length vs)"
  have p: "prog items = \<lfloor>mean + 1 / 2\<rfloor>"
    using ne by (simp add: prog_def Let_def foldl_or0_sum Math_round_def mean_def vs_def)
  have r: "prog items = round mean" using p by (simp add: round_def)
  have lo: "mean - 1 / 2 < real_of_int (prog items)" unfolding p by linarith
  have hi: "real_of_int (prog items) \<le> mean + 1 / 2" unfolding p by linarith
  show "let vs = map (\<lambda>c. or0 (completeness_percent c)) (filter is_applicable items);
            mean = real_of_int (sum_list vs) / real (length vs)
        in prog items = round mean
           \<and> mean - 1 / 2 < real_of_int (prog items) \<and> real_of_int (prog items) \<le> mean + 1 / 2"
    using r lo hi by (simp add: Let_def mean_def vs_def)
next
  assume "length (filter is_applicable items) = 18
    \<and> sum_list (map (\<lambda>c. or0 (completeness_percent c)) (filter is_applicable items)) = 1440"
  then have len: "length (filter is_applicable items) = 18"
    and total: "sum_list (map (\<lambda>c. or0 (completeness_percent c)) (filter is_applicable items)) = 1440"
    by simp_all
  from len have "filter is_applicable items \<noteq> []" by auto
  with len total show "prog items = 80" by (simp add: prog_formula Let_def)
qed

theorem prog_rounded_mean_witness:
  "prog scenario_A = 80 \<and> prog [] = 0
   \<and> length (filter is_applicable scenario_A) = 18
   \<and> sum_list (map (\<lambda>c. or0 (completeness_percent c)) (filter is_applicable scenario_A)) = 1440"
  using prog_rounded_mean [of scenario_A] prog_rounded_mean [of "[]"]
  by (simp add: scenario_A_def or0_def)



text \<open>
  C10. An item whose \<open>completeness_percent\<close> is missing counts as 0: the progress of the
  list is the progress of the list with that item's percentage set to 0.
\<close>

theorem missing_percent_counts_as_zero:
  assumes "i < length items" and "completeness_percent (items ! i) = None"
  shows "prog items = prog (items[i := (items ! i)\<lparr>completeness_percent := Some 0\<rparr>])"
proof (rule prog_cong)
  have "(map is_applicable items)[i := is_applicable (items ! i)] = map is_applicable items"
    using assms(1) by (simp add: list_update_same_conv)
  then show "map is_applicable items
      = map is_applicable (items[i := (items ! i)\<lparr>completeness_percent := Some 0\<rparr>])"
    by (simp add: map_update)
  have "or0 (completeness_percent (items ! i)) = 0" using assms by (simp add: or0_def)
  then have "(map (\<lambda>c. or0 (completeness_percent c)) items)[i := 0]
      = map (\<lambda>c. or0 (completeness_percent c)) items"
    using assms(1) by (simp add: list_update_same_conv)
  then show "map (\<lambda>c. or0 (completeness_percent c)) items
      = map (\<lambda>c. or0 (completeness_percent c)) (items[i := (items ! i)\<lparr>completeness_percent := Some 0\<rparr>])"
    by (simp add: map_update or0_def)
qed

theorem missing_percent_counts_as_zero_witness:
  "prog three_items = 50
   \<and> prog (three_items[1 := (three_items ! 1)\<lparr>completeness_percent := Some 0\<rparr>]) = 50
   \<and> completeness_percent (three_items ! 1) = None \<and> 1 < length three_items"
proof -
  have a: "1 < length three_items" by (simp add: three_items_def)
  have b: "completeness_percent (three_items ! 1) = None" by (simp add: three_items_def)
  have c: "prog three_items = 50" by (simp add: three_items_def prog_formula or0_def)
  show ?thesis using missing_percent_counts_as_zero [OF a b] a b c by simp
qed

section \<open>Properties of the stream consumer\<close>

subsection \<open>Splitting\<close>

lemma str_split_nonempty: "sep \<noteq> [] \<Longrightarrow> str_split sep s \<noteq> []"
  by (induction sep s rule: str_split.induct) (auto split: list.splits)

lemma str_split_single:
  "sep \<noteq> [] \<Longrightarrow> str_split sep s = [x] \<Longrightarrow> x = s"
proof (induction sep s arbitrary: x rule: str_split.induct)
  case (1 sep)
  then show ?case by simp
next
  case (2 sep c s)
  show ?case
  proof (cases "prefix sep (c # s)")
    case True
    with 2 str_split_nonempty [of sep "drop (length sep) (c # s)"] show ?thesis by simp
  next
    case False
    with 2 str_split_nonempty [of sep s] show ?thesis by (auto split: list.splits)
  qed
qed

lemma str_split_short:
  "length s < length sep \<Longrightarrow> str_split sep s = [s]"
proof (induction s)
  case Nil
  then show ?case by auto
next
  case (Cons c s)
  then have "\<not> prefix sep (c # s)" by (auto dest: prefix_length_le)
  with Cons show ?case by auto
qed

text \<open>
  Splitting may be resumed: the pieces of \<open>a @ b\<close> are the pieces of \<open>a\<close> but the last,
  followed by the pieces of that last piece continued with \<open>b\<close>.
\<close>

lemma str_split_restart:
  "sep \<noteq> [] \<Longrightarrow>
     str_split sep (a @ b) = butlast (str_split sep a) @ str_split sep (last (str_split sep a) @ b)"
proof (induction sep a rule: str_split.induct)
  case (1 sep)
  then show ?case by simp
next
  case (2 sep c s)
  note ne = \<open>sep \<noteq> []\<close>
  show ?case
  proof (cases "prefix sep (c # s)")
    case True
    then have pre: "prefix sep (c # s @ b)" by (metis append_Cons prefix_prefix)
    have le: "length sep \<le> length (c # s)" using True by (rule prefix_length_le)
    then have dr: "drop (length sep) (c # s @ b) = drop (length sep) (c # s) @ b"
      by (metis append_Cons drop_append diff_is_0_eq drop0)
    from True ne 2 have ih: "str_split sep (drop (length sep) (c # s) @ b)
        = butlast (str_split sep (drop (length sep) (c # s)))
          @ str_split sep (last (str_split sep (drop (length sep) (c # s))) @ b)"
      by simp
    have nn: "str_split sep (drop (length sep) (c # s)) \<noteq> []"
      using ne by (rule str_split_nonempty)
    have lhs: "str_split sep ((c # s) @ b) = [] # str_split sep (drop (length sep) (c # s) @ b)"
      using ne pre dr by simp
    have rhs: "str_split sep (c # s) = [] # str_split sep (drop (length sep) (c # s))"
      using ne True by simp
    show ?thesis unfolding lhs rhs using nn ih by simp
  next
    case False
    note nopre = this
    show ?thesis
    proof (cases "prefix sep (c # s @ b)")
      case True
      have "length (c # s) < length sep"
      proof (rule ccontr)
        assume "\<not> length (c # s) < length sep"
        then have "length sep \<le> length (c # s)" by simp
        with True have "prefix sep (c # s)"
          by (metis append_Cons prefix_length_prefix prefixI)
        with nopre show False by simp
      qed
      then have "str_split sep (c # s) = [c # s]" by (rule str_split_short)
      then show ?thesis by simp
    next
      case False
      from nopre ne 2 have ih: "str_split sep (s @ b)
          = butlast (str_split sep s) @ str_split sep (last (str_split sep s) @ b)"
        by simp
      obtain p ps where r: "str_split sep s = p # ps"
        using str_split_nonempty [OF ne, of s] by (cases "str_split sep s") auto
      have lhs: "str_split sep ((c # s) @ b)
          = (case str_split sep (s @ b) of [] \<Rightarrow> [[c]] | q # qs \<Rightarrow> (c # q) # qs)"
        using ne False by simp
      have rhs: "str_split sep (c # s) = (c # p) # ps"
        using ne nopre r by simp
      show ?thesis
      proof (cases ps)
        case Nil
        with r have "p = s" using str_split_single [OF ne, of s p] by simp
        with Nil r rhs lhs show ?thesis by simp
      next
        case (Cons q qs)
        with r ih have "str_split sep (s @ b) = p # butlast ps @ str_split sep (last ps @ b)"
          by simp
        with Cons rhs lhs show ?thesis by simp
      qed
    qed
  qed
qed

lemma split_frames_append:
  "butlast (str_split ''\<newline>\<newline>'' (b @ v1 @ v2))
     = butlast (str_split ''\<newline>\<newline>'' (b @ v1))
       @ butlast (str_split ''\<newline>\<newline>'' (last (str_split ''\<newline>\<newline>'' (b @ v1)) @ v2))"
  "last (str_split ''\<newline>\<newline>'' (b @ v1 @ v2))
     = last (str_split ''\<newline>\<newline>'' (last (str_split ''\<newline>\<newline>'' (b @ v1)) @ v2))"
proof -
  have ne: "''\<newline>\<newline>'' \<noteq> []" by simp
  have eq: "str_split ''\<newline>\<newline>'' ((b @ v1) @ v2)
      = butlast (str_split ''\<newline>\<newline>'' (b @ v1))
        @ str_split ''\<newline>\<newline>'' (last (str_split ''\<newline>\<newline>'' (b @ v1)) @ v2)"
    using ne by (rule str_split_restart)
  have nn: "str_split ''\<newline>\<newline>'' (last (str_split ''\<newline>\<newline>'' (b @ v1)) @ v2) \<noteq> []"
    using ne by (rule str_split_nonempty)
  show "butlast (str_split ''\<newline>\<newline>'' (b @ v1 @ v2))
     = butlast (str_split ''\<newline>\<newline>'' (b @ v1))
       @ butlast (str_split ''\<newline>\<newline>'' (last (str_split ''\<newline>\<newline>'' (b @ v1)) @ v2))"
    using eq nn by (simp add: butlast_append)
  show "last (str_split ''\<newline>\<newline>'' (b @ v1 @ v2))
     = last (str_split ''\<newline>\<newline>'' (last (str_split ''\<newline>\<newline>'' (b @ v1)) @ v2))"
    using eq nn by simp
qed

subsection \<open>Dispatch\<close>

lemma stage_of_runs_update:
  "stage_of (s\<lparr>runs := (runs s)[i := x]\<rparr>) j
     = (if j = i \<and> i < length (runs s) then x else stage_of s j)"
  by (simp add: stage_of_def nth_list_update)

lemma stage_of_make_update:
  "stage_of \<lparr> ui = u, runs = (runs s)[i := x] \<rparr> j
     = (if j = i \<and> i < length (runs s) then x else stage_of s j)"
  by (simp add: stage_of_def nth_list_update)

lemma stage_of_ui_update: "stage_of (s\<lparr>ui := u\<rparr>) j = stage_of s j"
  by (simp add: stage_of_def)

lemma stage_of_in_range: "stage_of s i \<noteq> NoRun \<Longrightarrow> i < length (runs s)"
  by (simp add: stage_of_def split: if_splits)

lemma deliver_not_reading:
  "\<not> reading s i \<Longrightarrow> deliver parse i raw s = s"
  by (cases "stage_of s i") (simp_all add: deliver_def reading_def)

lemma fold_deliver_not_reading:
  "\<not> reading s i \<Longrightarrow> fold (deliver parse i) raws s = s"
  by (induction raws) (simp_all add: deliver_not_reading)

lemma deliver_run:
  assumes "stage_of s i = Reading b"
  shows "stage_of (deliver parse i raw s) i = Reading b
    \<or> stage_of (deliver parse i raw s) i = Returned"
proof -
  from assms have "i < length (runs s)" by (intro stage_of_in_range) simp
  with assms show ?thesis
    by (cases "parse raw")
      (simp_all add: deliver_def stage_of_make_update stage_of_ui_update)
qed

lemma deliver_with_buffer:
  "deliver parse i raw (with_buffer i r s) = with_buffer i r (deliver parse i raw s)"
proof (cases "stage_of s i")
  case (Reading b)
  then have "i < length (runs s)" by (intro stage_of_in_range) simp
  with Reading show ?thesis
    by (cases "parse raw")
      (simp_all add: deliver_def with_buffer_def stage_of_runs_update stage_of_make_update
        stage_of_ui_update)
qed (simp_all add: deliver_def with_buffer_def)

lemma fold_deliver_with_buffer:
  "fold (deliver parse i) raws (with_buffer i r s) = with_buffer i r (fold (deliver parse i) raws s)"
  by (induction raws arbitrary: s) (simp_all add: deliver_with_buffer)

lemma fold_deliver_run:
  "stage_of s i = Reading b \<Longrightarrow>
     stage_of (fold (deliver parse i) raws s) i = Reading b
     \<or> stage_of (fold (deliver parse i) raws s) i = Returned"
proof (induction raws arbitrary: s)
  case Nil
  then show ?case by simp
next
  case (Cons raw raws)
  from deliver_run [OF Cons.prems, of parse raw] show ?case
  proof
    assume "stage_of (deliver parse i raw s) i = Reading b"
    then show ?thesis using Cons.IH by simp
  next
    assume r: "stage_of (deliver parse i raw s) i = Returned"
    then have "fold (deliver parse i) raws (deliver parse i raw s) = deliver parse i raw s"
      by (intro fold_deliver_not_reading) (simp add: reading_def)
    then show ?thesis using r by simp
  qed
qed

lemma with_buffer_not_reading: "\<not> reading s i \<Longrightarrow> with_buffer i r s = s"
  by (cases "stage_of s i") (simp_all add: with_buffer_def reading_def)

lemma with_buffer_reading:
  "stage_of s i = Reading b \<Longrightarrow> with_buffer i r s = s\<lparr>runs := (runs s)[i := Reading r]\<rparr>"
  by (simp add: with_buffer_def)

lemma with_buffer_twice: "with_buffer i r2 (with_buffer i r1 s) = with_buffer i r2 s"
proof (cases "stage_of s i")
  case (Reading b)
  then have "i < length (runs s)" by (intro stage_of_in_range) simp
  with Reading show ?thesis by (simp add: with_buffer_def stage_of_runs_update)
qed (simp_all add: with_buffer_def)

lemma stage_of_with_buffer:
  "stage_of s i = Reading b \<Longrightarrow> stage_of (with_buffer i r s) i = Reading r"
proof -
  assume a: "stage_of s i = Reading b"
  then have "i < length (runs s)" by (intro stage_of_in_range) simp
  with a show ?thesis by (simp add: with_buffer_def stage_of_runs_update)
qed

lemma step_ReadValue_reading:
  "stage_of s i = Reading b \<Longrightarrow>
     step parse (ReadValue i v) s =
       with_buffer i (last (str_split ''\<newline>\<newline>'' (b @ v)))
         (fold (deliver parse i) (concat (map payloads (butlast (str_split ''\<newline>\<newline>'' (b @ v))))) s)"
proof -
  assume r: "stage_of s i = Reading b"
  then have "s\<lparr>runs := (runs s)[i := Reading (last (str_split ''\<newline>\<newline>'' (b @ v)))]\<rparr>
      = with_buffer i (last (str_split ''\<newline>\<newline>'' (b @ v))) s"
    by (simp add: with_buffer_def)
  then show ?thesis using r by (simp add: Let_def fold_deliver_with_buffer)
qed

lemma step_ReadValue_not_reading:
  "\<not> reading s i \<Longrightarrow> step parse (ReadValue i v) s = s"
  by (cases "stage_of s i") (simp_all add: reading_def)

lemma read_twice:
  "step parse (ReadValue i v2) (step parse (ReadValue i v1) s) = step parse (ReadValue i (v1 @ v2)) s"
proof (cases "reading s i")
  case False
  then show ?thesis by (simp add: step_ReadValue_not_reading del: step.simps)
next
  case True
  then obtain b where r: "stage_of s i = Reading b"
    by (cases "stage_of s i") (simp_all add: reading_def)
  define parts1 where "parts1 = str_split ''\<newline>\<newline>'' (b @ v1)"
  define parts2 where "parts2 = str_split ''\<newline>\<newline>'' (last parts1 @ v2)"
  define t where "t = fold (deliver parse i) (concat (map payloads (butlast parts1))) s"
  have s1: "step parse (ReadValue i v1) s = with_buffer i (last parts1) t"
    using r by (simp add: step_ReadValue_reading parts1_def t_def del: step.simps)
  have whole: "step parse (ReadValue i (v1 @ v2)) s
      = with_buffer i (last parts2) (fold (deliver parse i) (concat (map payloads (butlast parts2))) t)"
    using r by (simp add: step_ReadValue_reading split_frames_append parts1_def parts2_def t_def
        del: step.simps)
  from fold_deliver_run [OF r, of parse "concat (map payloads (butlast parts1))"]
  have "stage_of t i = Reading b \<or> stage_of t i = Returned" by (simp add: t_def)
  then show ?thesis
  proof
    assume rt: "stage_of t i = Reading b"
    then have "stage_of (with_buffer i (last parts1) t) i = Reading (last parts1)"
      by (rule stage_of_with_buffer)
    then have "step parse (ReadValue i v2) (with_buffer i (last parts1) t)
        = with_buffer i (last parts2)
            (fold (deliver parse i) (concat (map payloads (butlast parts2)))
               (with_buffer i (last parts1) t))"
      by (simp add: step_ReadValue_reading parts2_def del: step.simps)
    also have "\<dots> = with_buffer i (last parts2)
        (with_buffer i (last parts1)
           (fold (deliver parse i) (concat (map payloads (butlast parts2))) t))"
      by (simp add: fold_deliver_with_buffer)
    also have "\<dots> = with_buffer i (last parts2)
        (fold (deliver parse i) (concat (map payloads (butlast parts2))) t)"
      by (simp only: with_buffer_twice)
    finally show ?thesis using s1 whole by simp
  next
    assume rt: "stage_of t i = Returned"
    then have nr: "\<not> reading t i" by (simp add: reading_def)
    have "step parse (ReadValue i v2) (with_buffer i (last parts1) t) = t"
      using nr by (simp add: with_buffer_not_reading step_ReadValue_not_reading del: step.simps)
    moreover have "with_buffer i (last parts2)
        (fold (deliver parse i) (concat (map payloads (butlast parts2))) t) = t"
      using nr by (simp add: fold_deliver_not_reading with_buffer_not_reading)
    ultimately show ?thesis using s1 whole by simp
  qed
qed

lemma read_all_append:
  "read_all buffer [v1 @ v2] = read_all buffer [v1, v2]"
  by (simp add: Let_def split_frames_append)

lemma read_all_concat:
  "chunks \<noteq> [] \<Longrightarrow> read_all buffer chunks = read_all buffer [concat chunks]"
proof (induction chunks arbitrary: buffer)
  case Nil
  then show ?case by simp
next
  case (Cons v vs)
  show ?case
  proof (cases vs)
    case Nil
    then show ?thesis by simp
  next
    case (Cons w ws)
    then have ih: "\<And>b. read_all b vs = read_all b [concat vs]" using Cons.IH by simp
    have "read_all buffer (v # vs) = read_all buffer [v, concat vs]"
      by (simp add: Let_def ih)
    also have "\<dots> = read_all buffer [v @ concat vs]" by (simp only: read_all_append)
    finally show ?thesis by simp
  qed
qed

lemma reads_not_reading:
  "\<not> reading t i \<Longrightarrow> fold (step parse) (map (ReadValue i) vs) t = t"
  by (induction vs) (simp_all add: step_ReadValue_not_reading del: step.simps)

lemma steps_read_all:
  "stage_of s i = Reading buffer \<Longrightarrow>
     steps parse (map (ReadValue i) chunks) s
       = with_buffer i (snd (read_all buffer chunks))
           (fold (deliver parse i) (fst (read_all buffer chunks)) s)"
proof (induction chunks arbitrary: s buffer)
  case Nil
  then have "i < length (runs s)" by (intro stage_of_in_range) simp
  with Nil have "(runs s)[i := Reading buffer] = runs s"
    by (simp add: stage_of_def list_update_same_conv)
  with Nil show ?case by (simp add: steps_def with_buffer_def)
next
  case (Cons v vs)
  define parts where "parts = str_split ''\<newline>\<newline>'' (buffer @ v)"
  define t where "t = fold (deliver parse i) (concat (map payloads (butlast parts))) s"
  have s1: "step parse (ReadValue i v) s = with_buffer i (last parts) t"
    using Cons.prems by (simp add: step_ReadValue_reading parts_def t_def del: step.simps)
  from fold_deliver_run [OF Cons.prems, of parse "concat (map payloads (butlast parts))"]
  have "stage_of t i = Reading buffer \<or> stage_of t i = Returned" by (simp add: t_def)
  then show ?case
  proof
    assume rt: "stage_of t i = Reading buffer"
    then have r1: "stage_of (with_buffer i (last parts) t) i = Reading (last parts)"
      by (rule stage_of_with_buffer)
    have "steps parse (map (ReadValue i) (v # vs)) s
        = steps parse (map (ReadValue i) vs) (with_buffer i (last parts) t)"
      using s1 by (simp add: steps_def del: step.simps)
    also have "\<dots> = with_buffer i (snd (read_all (last parts) vs))
        (fold (deliver parse i) (fst (read_all (last parts) vs)) (with_buffer i (last parts) t))"
      using Cons.IH [OF r1] .
    also have "\<dots> = with_buffer i (snd (read_all (last parts) vs))
        (fold (deliver parse i) (fst (read_all (last parts) vs)) t)"
      by (simp only: fold_deliver_with_buffer with_buffer_twice)
    finally show ?thesis by (simp add: Let_def parts_def t_def)
  next
    assume rt: "stage_of t i = Returned"
    then have nr: "\<not> reading t i" by (simp add: reading_def)
    have "fold (step parse) (map (ReadValue i) vs) t = t"
      using nr by (rule reads_not_reading)
    then have "steps parse (map (ReadValue i) (v # vs)) s = t"
      using s1 nr by (simp add: steps_def with_buffer_not_reading del: step.simps)
    moreover have "with_buffer i (snd (read_all buffer (v # vs)))
        (fold (deliver parse i) (fst (read_all buffer (v # vs))) s) = t"
      using nr by (simp add: Let_def parts_def [symmetric] t_def [symmetric]
          fold_deliver_not_reading with_buffer_not_reading)
    ultimately show ?thesis by simp
  qed
qed

lemma started_run_eq:
  "started_run = \<lparr> ui = (connect mounted)\<lparr>phase := running, percent := 2,
       statusMessage := ''Starting'' @ ellipsis\<rparr>, runs = [Reading []] \<rparr>"
  by (simp add: started_run_def steps_def initial_def mounted_def connect_def payloads_def
      trim_def white_space_def deliver_def sample_parse_def event_def handleEvent_def
      stage_of_def)

subsection \<open>Reads may be cut anywhere\<close>

text \<open>
  C3. Whatever the way a text is cut into one or more successive reads, the consumer
  hands the same payloads to the parser in the same order, keeps the same unfinished
  segment in its buffer, and ends in the same state as when the whole text arrives in
  one read. (The reads are the decoded pieces; the streaming \<open>TextDecoder\<close> is the
  platform's.)
\<close>

theorem frame_parsing_restartable:
  assumes "chunks \<noteq> []"
  shows "read_all buffer chunks = read_all buffer [concat chunks]
    \<and> steps parse (map (ReadValue i) chunks) s = step parse (ReadValue i (concat chunks)) s"
proof
  show "read_all buffer chunks = read_all buffer [concat chunks]"
    using assms by (rule read_all_concat)
  show "steps parse (map (ReadValue i) chunks) s = step parse (ReadValue i (concat chunks)) s"
    using assms
  proof (induction chunks arbitrary: s)
    case Nil
    then show ?case by simp
  next
    case (Cons v vs)
    show ?case
    proof (cases vs)
      case Nil
      then show ?thesis by (simp add: steps_def del: step.simps)
    next
      case (Cons w ws)
      then have "steps parse (map (ReadValue i) vs) (step parse (ReadValue i v) s)
          = step parse (ReadValue i (concat vs)) (step parse (ReadValue i v) s)"
        using Cons.IH by simp
      then show ?thesis by (simp add: steps_def read_twice del: step.simps)
    qed
  qed
qed

theorem frame_parsing_restartable_witness:
  \<open>three_reads \<noteq> []
   \<and> read_all [] three_reads = read_all [] [concat three_reads]
   \<and> fst (read_all [] three_reads)
       = [''{"type":"chunk","text":"Sec"}'', ''{"type":"chunk","text":"tion 1"}'']
   \<and> snd (read_all [] three_reads) = ''data: {"ty''
   \<and> steps sample_parse (map (ReadValue 0) three_reads) started_run
       = step sample_parse (ReadValue 0 (concat three_reads)) started_run\<close>
proof -
  have a: "three_reads \<noteq> []" by (simp add: three_reads_def)
  note th = frame_parsing_restartable [OF a, of "[]" sample_parse 0 started_run]
  have f: \<open>fst (read_all [] three_reads)
      = [''{"type":"chunk","text":"Sec"}'', ''{"type":"chunk","text":"tion 1"}'']\<close>
    by (simp add: three_reads_def payloads_def trim_def white_space_def Let_def)
  have g: \<open>snd (read_all [] three_reads) = ''data: {"ty''\<close>
    by (simp add: three_reads_def Let_def)
  show ?thesis
    by (intro conjI) (rule a th [THEN conjunct1] th [THEN conjunct2] f g)+
qed

subsection \<open>Accumulated text\<close>

lemma handleEvent_streamedText:
  "streamedText (handleEvent e c) = streamedText c @ chunk_text e"
  by (simp add: handleEvent_def chunk_text_def Let_def split: option.splits)

text \<open>
  C4. After any sequence of events the accumulated text is the text before, followed by
  the texts of the chunk events in their order. For the events started, progress at 25,
  chunks \<open>Sec\<close>, \<open>tion 1\<close>, \<open>...\<close>, and completed with score 92, the phase ends
  \<open>completed\<close>, the text is \<open>Section 1...\<close> and the score shown is 92.
\<close>

theorem chunk_text_accumulates:
  "streamedText (fold handleEvent events c) = streamedText c @ concat (map chunk_text events)
   \<and> phase (fold handleEvent scenario_B ((connect mounted)\<lparr>phase := running\<rparr>)) = completed
   \<and> streamedText (fold handleEvent scenario_B ((connect mounted)\<lparr>phase := running\<rparr>)) = ''Section 1...''
   \<and> displayed_score (fold handleEvent scenario_B ((connect mounted)\<lparr>phase := running\<rparr>)) = Some 92"
proof (intro conjI)
  show "streamedText (fold handleEvent events c) = streamedText c @ concat (map chunk_text events)"
  proof (induction events arbitrary: c)
    case Nil
    then show ?case by simp
  next
    case (Cons e es)
    then show ?case by (simp add: handleEvent_streamedText)
  qed
  show "phase (fold handleEvent scenario_B ((connect mounted)\<lparr>phase := running\<rparr>)) = completed"
    by (simp add: scenario_B_def event_def handleEvent_def)
  show "streamedText (fold handleEvent scenario_B ((connect mounted)\<lparr>phase := running\<rparr>)) = ''Section 1...''"
    by (simp add: scenario_B_def event_def handleEvent_def connect_def)
  show "displayed_score (fold handleEvent scenario_B ((connect mounted)\<lparr>phase := running\<rparr>)) = Some 92"
    by (simp add: scenario_B_def event_def handleEvent_def displayed_score_def)
qed

theorem chunk_text_accumulates_witness:
  "streamedText (fold handleEvent scenario_B mounted) = ''Section 1...''
   \<and> concat (map chunk_text scenario_B) = ''Section 1...''"
proof -
  have c: "concat (map chunk_text scenario_B) = ''Section 1...''"
    by (simp add: scenario_B_def event_def chunk_text_def)
  have m: "streamedText mounted = []" by (simp add: mounted_def)
  from chunk_text_accumulates [of scenario_B mounted]
  have "streamedText (fold handleEvent scenario_B mounted)
      = streamedText mounted @ concat (map chunk_text scenario_B)"
    by (rule conjunct1)
  then have "streamedText (fold handleEvent scenario_B mounted) = ''Section 1...''"
    by (simp only: c m append_Nil)
  then show ?thesis using c by (intro conjI)
qed

subsection \<open>Cancellation\<close>

lemma chunk_frame_step:
  assumes "stage_of s i = Reading []"
  shows "ui (step sample_parse (ReadValue i chunk_frame) s)
     = handleEvent ((event ''chunk'')\<lparr>ev_text := Some ''Sec''\<rparr>) (ui s)"
proof -
  from assms have "i < length (runs s)" by (intro stage_of_in_range) simp
  with assms show ?thesis
    by (simp add: chunk_frame_def payloads_def trim_def white_space_def deliver_def
        sample_parse_def stage_of_runs_update)
qed

lemma completed_frame_step:
  assumes "stage_of s i = Reading []"
  shows "step sample_parse (ReadValue i completed_frame) s
     = s\<lparr>ui := handleEvent ((event ''completed'')\<lparr>ev_percent := Some 100,
             ev_compliance_score := Some 92, ev_compliant := Some True\<rparr>) (ui s)\<rparr>"
proof -
  from assms have "i < length (runs s)" by (intro stage_of_in_range) simp
  moreover from this assms have "(runs s)[i := Reading []] = runs s"
    by (simp add: stage_of_def list_update_same_conv)
  ultimately show ?thesis using assms
    by (simp add: completed_frame_def payloads_def trim_def white_space_def deliver_def
        sample_parse_def stage_of_runs_update)
qed

lemma error_frame_step:
  assumes "stage_of s i = Reading []"
  shows "ui (step sample_parse (ReadValue i error_frame) s) = handleEvent (event ''error'') (ui s)"
proof -
  from assms have "i < length (runs s)" by (intro stage_of_in_range) simp
  with assms show ?thesis
    by (simp add: error_frame_def payloads_def trim_def white_space_def deliver_def
        sample_parse_def stage_of_runs_update)
qed

lemma started_frame_step:
  assumes "stage_of s i = Reading []"
  shows "step sample_parse (ReadValue i started_frame) s
     = s\<lparr>ui := handleEvent (event ''started'') (ui s)\<rparr>"
proof -
  from assms have "i < length (runs s)" by (intro stage_of_in_range) simp
  moreover from this assms have "(runs s)[i := Reading []] = runs s"
    by (simp add: stage_of_def list_update_same_conv)
  ultimately show ?thesis using assms
    by (simp add: started_frame_def payloads_def trim_def white_space_def deliver_def
        sample_parse_def stage_of_runs_update)
qed

lemma connecting_state:
  "step sample_parse StartClick initial = \<lparr> ui = connect mounted, runs = [Fetching] \<rparr>"
  by (simp add: initial_def mounted_def)

lemma refused_state:
  "step sample_parse refused \<lparr> ui = connect mounted, runs = [Fetching] \<rparr>
     = \<lparr> ui = catch_error ''Server returned 500: Internal Server Error'' (connect mounted),
         runs = [Returned] \<rparr>"
  by (simp add: refused_def stage_of_def)

lemma completed_once_state:
  "runs (steps sample_parse completed_once initial) = [Reading []]
   \<and> phase (ui (steps sample_parse completed_once initial)) = completed"
proof -
  have s2: "steps sample_parse [StartClick, Settled 0 Body] initial
      = \<lparr> ui = (connect mounted)\<lparr>phase := running\<rparr>, runs = [Reading []] \<rparr>"
    by (simp add: steps_def initial_def mounted_def stage_of_def)
  have "steps sample_parse completed_once initial
      = step sample_parse (ReadValue 0 completed_frame)
          (steps sample_parse [StartClick, Settled 0 Body] initial)"
    by (simp add: completed_once_def steps_def del: step.simps)
  also have "\<dots> = \<lparr> ui = handleEvent ((event ''completed'')\<lparr>ev_percent := Some 100,
             ev_compliance_score := Some 92, ev_compliant := Some True\<rparr>)
             ((connect mounted)\<lparr>phase := running\<rparr>), runs = [Reading []] \<rparr>"
    unfolding s2 by (subst completed_frame_step) (simp_all add: stage_of_def)
  finally show ?thesis by (simp add: handleEvent_def event_def)
qed

lemma restarted_state:
  "runs (steps sample_parse restarted initial) = [Reading [], Fetching]
   \<and> phase (ui (steps sample_parse restarted initial)) = connecting
   \<and> streamedText (ui (steps sample_parse restarted initial)) = []"
proof -
  define s where "s = steps sample_parse completed_once initial"
  have r: "runs s = [Reading []]" and p: "phase (ui s) = completed"
    using completed_once_state by (simp_all add: s_def)
  have "steps sample_parse restarted initial
      = step sample_parse StartClick (step sample_parse ResetClick s)"
    by (simp add: restarted_def steps_def s_def del: step.simps)
  then show ?thesis using r p
    by (simp add: isTerminal_def retry_def connect_def)
qed

lemma second_run_cancelled_state:
  "runs (steps sample_parse second_run_cancelled initial) = [Reading [], Returned]
   \<and> phase (ui (steps sample_parse second_run_cancelled initial)) = cancelled
   \<and> streamedText (ui (steps sample_parse second_run_cancelled initial)) = []"
proof -
  define s where "s = steps sample_parse restarted initial"
  have r: "runs s = [Reading [], Fetching]" and p: "phase (ui s) = connecting"
    and t: "streamedText (ui s) = []"
    using restarted_state by (simp_all add: s_def)
  define s1 where "s1 = step sample_parse (Settled 1 Body) s"
  have r1: "runs s1 = [Reading [], Reading []]" and p1: "phase (ui s1) = running"
    and t1: "streamedText (ui s1) = []"
    using r p t by (simp_all add: s1_def stage_of_def)
  define s2 where "s2 = step sample_parse (ReadValue 1 started_frame) s1"
  have e2: "s2 = s1\<lparr>ui := handleEvent (event ''started'') (ui s1)\<rparr>"
    unfolding s2_def using r1 by (intro started_frame_step) (simp add: stage_of_def)
  have r2: "runs s2 = [Reading [], Reading []]" and p2: "phase (ui s2) = running"
    and t2: "streamedText (ui s2) = []"
    using r1 p1 t1 by (simp_all add: e2 handleEvent_def event_def)
  have "steps sample_parse second_run_cancelled initial = step sample_parse CancelClick s2"
    by (simp add: second_run_cancelled_def steps_def s_def s1_def s2_def del: step.simps)
  then show ?thesis using r2 p2 t2
    by (simp add: isActive_def latest_def stage_of_def handleCancel_def catch_abort_def)
qed












lemma steps_append: "steps parse (hs @ hs') s = steps parse hs' (steps parse hs s)"
  by (simp add: steps_def)


subsection \<open>The phase machine\<close>

lemma in_order_initial: "in_order initial"
  by (simp add: in_order_def initial_def stage_of_def)

lemma pending_is_latest:
  assumes "in_order s" and "pending (stage_of s i)"
  shows "i = latest s"
proof (rule ccontr)
  assume ne: "i \<noteq> latest s"
  from assms(2) have "stage_of s i \<noteq> NoRun" by (auto simp: pending_def)
  then have lt: "i < length (runs s)" by (rule stage_of_in_range)
  with ne have "i < length (butlast (runs s))" by (simp add: latest_def)
  moreover from this have "butlast (runs s) ! i = runs s ! i" by (simp add: nth_butlast)
  moreover from assms(1) have "list_all (\<lambda>st. \<not> pending st) (butlast (runs s))"
    by (simp add: in_order_def)
  ultimately have "\<not> pending (runs s ! i)" by (metis list_all_length)
  with lt assms(2) show False by (simp add: stage_of_def)
qed

lemma in_order_fetching:
  assumes "in_order s" and "stage_of s i = Fetching"
  shows "phase (ui s) = connecting"
proof -
  from assms have "i = latest s" by (intro pending_is_latest) (simp_all add: pending_def)
  with assms show ?thesis by (simp add: in_order_def)
qed

lemma in_order_reading:
  assumes "in_order s" and "stage_of s i = Reading b"
  shows "phase (ui s) = running"
proof -
  from assms have "i = latest s" by (intro pending_is_latest) (simp_all add: pending_def)
  with assms show ?thesis by (simp add: in_order_def)
qed

lemma step_transition:
  assumes "in_order s" and "\<And>i v. h \<noteq> ReadValue i v"
    and "phase (ui (step parse h s)) \<noteq> phase (ui s)"
  shows "\<exists>t. trigger_of h = Some t
    \<and> (phase (ui s), t, phase (ui (step parse h s))) \<in> set code_transitions"
proof (cases h)
  case StartClick
  then show ?thesis
    using assms(3)
    by (auto simp: connect_def code_transitions_def listed_transitions_def split: if_splits)
next
  case CancelClick
  then show ?thesis
    using assms(3)
    by (cases "stage_of s (latest s)")
      (auto simp: isActive_def handleCancel_def catch_abort_def code_transitions_def
        listed_transitions_def split: if_splits)
next
  case ResetClick
  then show ?thesis
    using assms(3)
    by (auto simp: isTerminal_def retry_def code_transitions_def listed_transitions_def
        split: if_splits)
next
  case (Settled i r)
  show ?thesis
  proof (cases "stage_of s i = Fetching")
    case True
    with assms(1) have "phase (ui s) = connecting" by (rule in_order_fetching)
    with True Settled assms(3) show ?thesis
      by (cases r) (auto simp: catch_error_def code_transitions_def listed_transitions_def)
  next
    case False
    with Settled assms(3) show ?thesis by (cases "stage_of s i") simp_all
  qed
next
  case (ReadValue i v)
  then show ?thesis using assms(2) by simp
next
  case (ReadDone i)
  then show ?thesis using assms(3) by (cases "stage_of s i") simp_all
next
  case (ReadFailed i msg)
  show ?thesis
  proof (cases "stage_of s i")
    case (Reading b)
    with assms(1) have "phase (ui s) = running" by (rule in_order_reading)
    with Reading ReadFailed assms(3) show ?thesis
      by (auto simp: catch_error_def code_transitions_def listed_transitions_def)
  qed (use ReadFailed assms(3) in simp_all)
qed

lemma deliver_transition:
  assumes "in_order s" and "parse raw \<noteq> JsonNull"
    and "phase (ui (deliver parse i raw s)) \<noteq> phase (ui s)"
  shows "\<exists>t. payload_trigger parse raw = Some t
    \<and> (phase (ui s), t, phase (ui (deliver parse i raw s))) \<in> set code_transitions"
proof (cases "stage_of s i")
  case (Reading buffer)
  with assms(1) have run: "phase (ui s) = running" by (rule in_order_reading)
  show ?thesis
  proof (cases "parse raw")
    case SyntaxError
    with Reading assms(3) show ?thesis by (simp add: deliver_def)
  next
    case JsonNull
    with assms(2) show ?thesis by simp
  next
    case (JsonEvent e)
    with Reading assms(3) run show ?thesis
      by (auto simp: deliver_def payload_trigger_def handleEvent_def Let_def
          code_transitions_def listed_transitions_def split: if_splits option.splits)
  qed
qed (use assms(3) in \<open>simp_all add: deliver_def\<close>)

text \<open>
  C5, as the specification states it, fails, in five ways. A request that the server
  refuses takes the phase from \<open>connecting\<close> to \<open>error\<close>. The Retry / Regenerate
  button takes \<open>error\<close>, \<open>completed\<close> and \<open>cancelled\<close> back to \<open>idle\<close>. An error event
  that follows the completed event on the same stream takes \<open>completed\<close> to
  \<open>error\<close>. A completed event on the stream of an earlier call takes \<open>connecting\<close> to
  \<open>completed\<close>. And a payload \<open>null\<close>, which is neither an error event nor a transport
  failure, takes \<open>running\<close> to \<open>error\<close>. None of the first four moves is listed.
\<close>

theorem listed_transitions_counterexample:
  "phase (ui (step sample_parse StartClick initial)) = connecting
   \<and> phase (ui (step sample_parse refused (step sample_parse StartClick initial))) = error
   \<and> (connecting, error) \<notin> set listed_moves
   \<and> phase (ui (step sample_parse ResetClick
        (step sample_parse refused (step sample_parse StartClick initial)))) = idle
   \<and> (error, idle) \<notin> set listed_moves
   \<and> phase (ui (steps sample_parse completed_once initial)) = completed
   \<and> phase (ui (steps sample_parse (completed_once @ [ResetClick]) initial)) = idle
   \<and> (completed, idle) \<notin> set listed_moves
   \<and> phase (ui (steps sample_parse second_run_cancelled initial)) = cancelled
   \<and> phase (ui (steps sample_parse (second_run_cancelled @ [ResetClick]) initial)) = idle
   \<and> (cancelled, idle) \<notin> set listed_moves
   \<and> phase (ui (steps sample_parse (completed_once @ [ReadValue 0 error_frame]) initial)) = error
   \<and> (completed, error) \<notin> set listed_moves
   \<and> phase (ui (steps sample_parse restarted initial)) = connecting
   \<and> phase (ui (steps sample_parse (restarted @ [ReadValue 0 completed_frame]) initial)) = completed
   \<and> (connecting, completed) \<notin> set listed_moves
   \<and> phase (ui started_run) = running
   \<and> phase (ui (deliver sample_parse 0 ''null'' started_run)) = error
   \<and> payload_trigger sample_parse ''null'' = None"
proof -
  have a1: "phase (ui (step sample_parse StartClick initial)) = connecting"
    by (simp only: connecting_state) (simp add: connect_def)
  have a2: "phase (ui (step sample_parse refused (step sample_parse StartClick initial))) = error"
    by (simp only: connecting_state refused_state) (simp add: catch_error_def)
  have a3: "(connecting, error) \<notin> set listed_moves"
    by (simp add: listed_moves_def listed_transitions_def)
  have b1: "phase (ui (step sample_parse ResetClick
        (step sample_parse refused (step sample_parse StartClick initial)))) = idle"
    by (simp only: connecting_state refused_state)
      (simp add: catch_error_def isTerminal_def retry_def)
  have b2: "(error, idle) \<notin> set listed_moves"
    by (simp add: listed_moves_def listed_transitions_def)
  define s where "s = steps sample_parse completed_once initial"
  have sr: "stage_of s 0 = Reading []" and sp: "phase (ui s) = completed"
    using completed_once_state by (simp_all add: s_def stage_of_def)
  have "steps sample_parse (completed_once @ [ResetClick]) initial
      = step sample_parse ResetClick s"
    by (simp add: steps_def s_def del: step.simps)
  then have c2: "phase (ui (steps sample_parse (completed_once @ [ResetClick]) initial)) = idle"
    using sp by (simp add: isTerminal_def retry_def)
  have c3: "(completed, idle) \<notin> set listed_moves"
    by (simp add: listed_moves_def listed_transitions_def)
  define c where "c = steps sample_parse second_run_cancelled initial"
  have cp: "phase (ui c) = cancelled"
    using second_run_cancelled_state by (simp add: c_def)
  have "steps sample_parse (second_run_cancelled @ [ResetClick]) initial
      = step sample_parse ResetClick c"
    by (simp add: steps_def c_def del: step.simps)
  then have d2: "phase (ui (steps sample_parse (second_run_cancelled @ [ResetClick]) initial)) = idle"
    using cp by (simp add: isTerminal_def retry_def)
  have d3: "(cancelled, idle) \<notin> set listed_moves"
    by (simp add: listed_moves_def listed_transitions_def)
  have "steps sample_parse (completed_once @ [ReadValue 0 error_frame]) initial
      = step sample_parse (ReadValue 0 error_frame) s"
    by (simp add: steps_def s_def del: step.simps)
  then have e1: "phase (ui (steps sample_parse (completed_once @ [ReadValue 0 error_frame]) initial))
      = error"
    by (simp only: error_frame_step [OF sr]) (simp add: handleEvent_def event_def)
  have e2: "(completed, error) \<notin> set listed_moves"
    by (simp add: listed_moves_def listed_transitions_def)
  define r where "r = steps sample_parse restarted initial"
  have rr: "stage_of r 0 = Reading []" and rp: "phase (ui r) = connecting"
    using restarted_state by (simp_all add: r_def stage_of_def)
  have "steps sample_parse (restarted @ [ReadValue 0 completed_frame]) initial
      = step sample_parse (ReadValue 0 completed_frame) r"
    by (simp add: steps_def r_def del: step.simps)
  then have f1: "phase (ui (steps sample_parse (restarted @ [ReadValue 0 completed_frame]) initial))
      = completed"
    by (simp only: completed_frame_step [OF rr]) (simp add: handleEvent_def event_def)
  have f2: "(connecting, completed) \<notin> set listed_moves"
    by (simp add: listed_moves_def listed_transitions_def)
  have g1: "phase (ui started_run) = running" by (simp add: started_run_eq)
  have g2: "phase (ui (deliver sample_parse 0 ''null'' started_run)) = error"
    by (simp add: started_run_eq deliver_def sample_parse_def stage_of_def catch_error_def)
  have g3: "payload_trigger sample_parse ''null'' = None"
    by (simp add: payload_trigger_def sample_parse_def)
  show ?thesis
    by (intro conjI)
      (rule a1 a2 a3 b1 b2 sp [unfolded s_def] c2 c3 cp [unfolded c_def] d2 d3 e1 e2
        rp [unfolded r_def] f1 f2 g1 g2 g3)+
qed

text \<open>
  C5, amended. The phase starts at \<open>idle\<close>. While the last call is the only one whose
  request or stream may still be open and it has not read past an event that ended it,
  and for a payload that does not parse to \<open>null\<close>, every change of phase is one of:
  idle to connecting on a start request; connecting to running on a successful
  response; connecting to error on a failed request; running to completed on a
  \<open>completed\<close> event; running to error on an \<open>error\<close> event or a transport failure;
  running or connecting to cancelled on cancellation; completed, error or cancelled to
  idle on the Retry / Regenerate button. A read is a sequence of deliveries, so the
  statement is made for each delivered payload and for every other happening.
\<close>

theorem phase_transitions:
  "phase (ui initial) = idle
   \<and> (in_order s \<longrightarrow> (\<forall>i v. h \<noteq> ReadValue i v) \<longrightarrow> phase (ui (step parse h s)) \<noteq> phase (ui s) \<longrightarrow>
        (\<exists>t. trigger_of h = Some t
           \<and> (phase (ui s), t, phase (ui (step parse h s))) \<in> set code_transitions))
   \<and> (in_order s \<longrightarrow> parse raw \<noteq> JsonNull \<longrightarrow> phase (ui (deliver parse i raw s)) \<noteq> phase (ui s) \<longrightarrow>
        (\<exists>t. payload_trigger parse raw = Some t
           \<and> (phase (ui s), t, phase (ui (deliver parse i raw s))) \<in> set code_transitions))"
proof (intro conjI impI)
  show "phase (ui initial) = idle" by (simp add: initial_def mounted_def)
next
  assume "in_order s" and "\<forall>i v. h \<noteq> ReadValue i v"
    and "phase (ui (step parse h s)) \<noteq> phase (ui s)"
  then show "\<exists>t. trigger_of h = Some t
      \<and> (phase (ui s), t, phase (ui (step parse h s))) \<in> set code_transitions"
    by (intro step_transition) simp_all
next
  assume "in_order s" and "parse raw \<noteq> JsonNull"
    and "phase (ui (deliver parse i raw s)) \<noteq> phase (ui s)"
  then show "\<exists>t. payload_trigger parse raw = Some t
      \<and> (phase (ui s), t, phase (ui (deliver parse i raw s))) \<in> set code_transitions"
    by (rule deliver_transition)
qed

theorem phase_transitions_witness:
  "phase (ui initial) = idle
   \<and> in_order (step sample_parse StartClick initial)
   \<and> phase (ui (step sample_parse StartClick initial)) = connecting
   \<and> phase (ui (step sample_parse refused (step sample_parse StartClick initial))) = error
   \<and> trigger_of refused = Some TransportFailure
   \<and> (connecting, TransportFailure, error) \<in> set code_transitions
   \<and> in_order started_run
   \<and> sample_parse completed_raw \<noteq> JsonNull
   \<and> phase (ui started_run) = running
   \<and> phase (ui (deliver sample_parse 0 completed_raw started_run)) = completed
   \<and> payload_trigger sample_parse completed_raw = Some CompletedEvent
   \<and> (running, CompletedEvent, completed) \<in> set code_transitions"
proof -
  let ?s1 = "step sample_parse StartClick initial"
  have o1: "in_order ?s1"
    by (simp only: connecting_state) (simp add: in_order_def connect_def stage_of_def latest_def)
  have h1: "\<forall>i v. refused \<noteq> ReadValue i v" by (simp add: refused_def)
  have p1: "phase (ui ?s1) = connecting"
    by (simp only: connecting_state) (simp add: connect_def)
  have q1: "phase (ui (step sample_parse refused ?s1)) = error"
    by (simp only: connecting_state refused_state) (simp add: catch_error_def)
  have c1: "phase (ui (step sample_parse refused ?s1)) \<noteq> phase (ui ?s1)"
    by (simp only: p1 q1) simp
  have g1: "trigger_of refused = Some TransportFailure" by (simp add: refused_def)
  have o2: "in_order started_run"
    by (simp add: started_run_eq in_order_def stage_of_def latest_def)
  have n2: "sample_parse completed_raw \<noteq> JsonNull"
    by (simp add: sample_parse_def completed_raw_def)
  have p2: "phase (ui started_run) = running" by (simp add: started_run_eq)
  have q2: "phase (ui (deliver sample_parse 0 completed_raw started_run)) = completed"
    by (simp add: started_run_eq deliver_def sample_parse_def completed_raw_def handleEvent_def
        event_def stage_of_def)
  have c2: "phase (ui (deliver sample_parse 0 completed_raw started_run)) \<noteq> phase (ui started_run)"
    by (simp only: p2 q2) simp
  have g2: "payload_trigger sample_parse completed_raw = Some CompletedEvent"
    by (simp add: payload_trigger_def sample_parse_def completed_raw_def event_def)
  note a = phase_transitions [of ?s1 refused sample_parse completed_raw 0]
  note b = phase_transitions [of started_run refused sample_parse completed_raw 0]
  from a have i: "phase (ui initial) = idle" by (rule conjunct1)
  from a o1 h1 c1 have "\<exists>t. trigger_of refused = Some t
      \<and> (phase (ui ?s1), t, phase (ui (step sample_parse refused ?s1))) \<in> set code_transitions"
    by blast
  then have t1: "(connecting, TransportFailure, error) \<in> set code_transitions"
    unfolding p1 q1 g1 by blast
  from b o2 n2 c2 have "\<exists>t. payload_trigger sample_parse completed_raw = Some t
      \<and> (phase (ui started_run), t, phase (ui (deliver sample_parse 0 completed_raw started_run)))
            \<in> set code_transitions"
    by blast
  then have t2: "(running, CompletedEvent, completed) \<in> set code_transitions"
    unfolding p2 q2 g2 by blast
  show ?thesis
    by (intro conjI) (rule i o1 p1 q1 g1 t1 o2 n2 p2 q2 g2 t2)+
qed

subsection \<open>Malformed frames\<close>

text \<open>A payload on which \<open>JSON.parse\<close> throws is skipped.\<close>

lemma unparsable_payload_skipped:
  "parse raw = SyntaxError \<Longrightarrow> deliver parse i raw s = s"
  by (cases "stage_of s i") (simp_all add: deliver_def)

lemma null_frame_split:
  "str_split ''\<newline>\<newline>'' (null_frame @ later) = ''data: null'' # str_split ''\<newline>\<newline>'' later"
proof -
  have "str_split ''\<newline>\<newline>'' null_frame = [''data: null'', []]"
    by (simp add: null_frame_def)
  then show ?thesis
    using str_split_restart [of "''\<newline>\<newline>''" null_frame later] by simp
qed

text \<open>
  C6. A frame whose payload is the JSON text \<open>null\<close> parses, but is no event: reading
  its \<open>type\<close> throws, the call ends in phase \<open>error\<close>, and the frames after it are
  not processed.
\<close>

theorem null_payload_ends_stream:
  assumes "parse ''null'' = JsonNull" and "stage_of s i = Reading []"
  shows "step parse (ReadValue i (null_frame @ later)) s
     = \<lparr> ui = catch_error null_type_error (ui s), runs = (runs s)[i := Returned] \<rparr>
   \<and> phase (ui (step parse (ReadValue i (null_frame @ later)) s)) = error"
proof -
  from assms(2) have lt: "i < length (runs s)" by (intro stage_of_in_range) simp
  have nn: "str_split ''\<newline>\<newline>'' later \<noteq> []" by (rule str_split_nonempty) simp
  have pl: "payloads ''data: null'' = [''null'']"
    by (simp add: payloads_def trim_def white_space_def)
  define rest where "rest = concat (map payloads (butlast (str_split ''\<newline>\<newline>'' later)))"
  define s1 where "s1 = s\<lparr>runs := (runs s)[i := Reading (last (str_split ''\<newline>\<newline>'' later))]\<rparr>"
  define e where "e = \<lparr> ui = catch_error null_type_error (ui s), runs = (runs s)[i := Returned] \<rparr>"
  have st: "step parse (ReadValue i (null_frame @ later)) s
      = fold (deliver parse i) rest (deliver parse i ''null'' s1)"
    using assms(2) nn by (simp add: null_frame_split pl rest_def s1_def Let_def)
  have d: "deliver parse i ''null'' s1 = e"
    using assms(1) lt by (simp add: deliver_def s1_def e_def stage_of_runs_update)
  have "\<not> reading e i" using lt by (simp add: reading_def e_def stage_of_make_update)
  then have "fold (deliver parse i) rest e = e" by (rule fold_deliver_not_reading)
  with st d show ?thesis by (simp add: e_def catch_error_def)
qed

theorem null_payload_ends_stream_witness:
  "sample_parse ''null'' = JsonNull \<and> stage_of started_run 0 = Reading []
   \<and> phase (ui (step sample_parse (ReadValue 0 (null_frame @ chunk_frame)) started_run)) = error
   \<and> streamedText (ui (step sample_parse (ReadValue 0 (null_frame @ chunk_frame)) started_run)) = []
   \<and> phase (ui (step sample_parse (ReadValue 0 chunk_frame) started_run)) = running
   \<and> streamedText (ui (step sample_parse (ReadValue 0 chunk_frame) started_run)) = ''Sec''"
proof -
  have a: "sample_parse ''null'' = JsonNull" by (simp add: sample_parse_def)
  have b: "stage_of started_run 0 = Reading []" by (simp add: started_run_eq stage_of_def)
  note th = null_payload_ends_stream [of sample_parse started_run 0 chunk_frame, OF a b]
  have t: "streamedText (ui (step sample_parse (ReadValue 0 (null_frame @ chunk_frame)) started_run)) = []"
    by (simp only: th [THEN conjunct1]) (simp add: catch_error_def started_run_eq connect_def)
  note r = chunk_frame_step [OF b]
  have r1: "phase (ui (step sample_parse (ReadValue 0 chunk_frame) started_run)) = running"
    unfolding r by (simp add: started_run_eq handleEvent_def event_def)
  have r2: "streamedText (ui (step sample_parse (ReadValue 0 chunk_frame) started_run)) = ''Sec''"
    unfolding r by (simp add: started_run_eq handleEvent_def event_def connect_def)
  show ?thesis
    by (intro conjI) (rule a b th [THEN conjunct2] t r1 r2)+
qed

section \<open>Properties of the review workflow\<close>

lemma foldr_max_ge: "r \<in> set rounds \<Longrightarrow> review_round r \<le> foldr max (map review_round rounds) 0"
  by (induction rounds) auto

lemma next_round_greater: "r \<in> set rounds \<Longrightarrow> review_round r < next_round rounds"
  using foldr_max_ge [of r rounds] by (simp add: next_round_def)

lemma next_round_counting:
  "map review_round rounds = [1..<Suc (length rounds)] \<Longrightarrow> next_round rounds = length rounds + 1"
proof (induction rounds rule: rev_induct)
  case Nil
  then show ?case by (simp add: next_round_def)
next
  case (snoc r rounds)
  from snoc.prems have m: "map review_round rounds = [1..<Suc (length rounds)]"
    and l: "review_round r = Suc (length rounds)"
    by simp_all
  from snoc.IH [OF m] have "foldr max (map review_round rounds) 0 = length rounds"
    by (simp add: next_round_def)
  moreover have "foldr max (map review_round (rounds @ [r])) 0
      = max (foldr max (map review_round rounds) 0) (review_round r)"
    by (induction rounds) (simp_all add: max.assoc)
  ultimately show ?case using l by (simp add: next_round_def)
qed

text \<open>
  C8. A review that is not terminal can be approved and rejected whatever its overall
  progress: the page offers both actions for every progress value and the status PATCH
  succeeds. An update of a checklist item never makes a review approved or rejected, on
  the server or in the page, whatever percentage it produces.
\<close>

theorem review_decision_whatever_percent:
  assumes "\<not> terminal (status r)"
  shows "apply_status_patch
           \<lparr> patch_review_id = review_id r, patch_status = approved, patch_overall_notes = n \<rparr>
           (r\<lparr>overall_progress := pct\<rparr>)
         = Some (r\<lparr>overall_progress := pct, status := approved, overall_notes := n\<rparr>)
    \<and> apply_status_patch
           \<lparr> patch_review_id = review_id r, patch_status = rejected, patch_overall_notes = n \<rparr>
           (r\<lparr>overall_progress := pct\<rparr>)
         = Some (r\<lparr>overall_progress := pct, status := rejected, overall_notes := n\<rparr>)
    \<and> \<not> terminal (status (apply_item_update items r))
    \<and> (tab p = checklist_tab \<and> activeReview p = Some r \<longrightarrow>
          approve_click (p\<lparr>activeReview := Some (r\<lparr>overall_progress := pct\<rparr>)\<rparr>)
            = Some \<lparr> patch_review_id = review_id r, patch_status = approved,
                     patch_overall_notes = ''Submission approved after review'' \<rparr>
          \<and> reject_click (p\<lparr>activeReview := Some (r\<lparr>overall_progress := pct\<rparr>)\<rparr>)
            = Some \<lparr> patch_review_id = review_id r, patch_status = rejected,
                     patch_overall_notes = ''Revision required - see checklist notes'' \<rparr>)
    \<and> (activeReview p = Some r \<longrightarrow>
          map_option status (activeReview (handleChecklistUpdate itemId response p)) = Some (status r))"
proof (intro conjI impI)
  show "apply_status_patch
           \<lparr> patch_review_id = review_id r, patch_status = approved, patch_overall_notes = n \<rparr>
           (r\<lparr>overall_progress := pct\<rparr>)
         = Some (r\<lparr>overall_progress := pct, status := approved, overall_notes := n\<rparr>)"
    using assms by (simp add: apply_status_patch_def terminal_def)
  show "apply_status_patch
           \<lparr> patch_review_id = review_id r, patch_status = rejected, patch_overall_notes = n \<rparr>
           (r\<lparr>overall_progress := pct\<rparr>)
         = Some (r\<lparr>overall_progress := pct, status := rejected, overall_notes := n\<rparr>)"
    using assms by (simp add: apply_status_patch_def terminal_def)
  show "\<not> terminal (status (apply_item_update items r))"
    using assms by (simp add: apply_item_update_def terminal_def)
next
  assume "tab p = checklist_tab \<and> activeReview p = Some r"
  then show "approve_click (p\<lparr>activeReview := Some (r\<lparr>overall_progress := pct\<rparr>)\<rparr>)
            = Some \<lparr> patch_review_id = review_id r, patch_status = approved,
                     patch_overall_notes = ''Submission approved after review'' \<rparr>"
    by (simp add: approve_click_def)
next
  assume "tab p = checklist_tab \<and> activeReview p = Some r"
  then show "reject_click (p\<lparr>activeReview := Some (r\<lparr>overall_progress := pct\<rparr>)\<rparr>)
            = Some \<lparr> patch_review_id = review_id r, patch_status = rejected,
                     patch_overall_notes = ''Revision required - see checklist notes'' \<rparr>"
    by (simp add: reject_click_def)
next
  assume "activeReview p = Some r"
  then show "map_option status (activeReview (handleChecklistUpdate itemId response p)) = Some (status r)"
    by (cases response) (simp_all add: handleChecklistUpdate_def Let_def)
qed

theorem review_decision_whatever_percent_witness:
  "\<not> terminal (status sample_review)
   \<and> apply_status_patch
        \<lparr> patch_review_id = 7, patch_status = approved,
          patch_overall_notes = ''Submission approved after review'' \<rparr>
        (sample_review\<lparr>overall_progress := 0\<rparr>)
      = Some (sample_review\<lparr>overall_progress := 0, status := approved,
                overall_notes := ''Submission approved after review''\<rparr>)
   \<and> tab sample_page = checklist_tab \<and> activeReview sample_page = Some sample_review
   \<and> approve_click (sample_page\<lparr>activeReview := Some (sample_review\<lparr>overall_progress := 0\<rparr>)\<rparr>)
      = Some \<lparr> patch_review_id = 7, patch_status = approved,
               patch_overall_notes = ''Submission approved after review'' \<rparr>
   \<and> map_option status (activeReview (handleChecklistUpdate 2 (Inr full_patch) sample_page))
      = Some draft"
proof -
  have a: "\<not> terminal (status sample_review)"
    by (simp add: sample_review_def seeded_def terminal_def)
  have i: "review_id sample_review = 7" by (simp add: sample_review_def seeded_def)
  have st: "status sample_review = draft" by (simp add: sample_review_def seeded_def)
  have t: "tab sample_page = checklist_tab" by (simp add: sample_page_def)
  have ar: "activeReview sample_page = Some sample_review" by (simp add: sample_page_def)
  note th = review_decision_whatever_percent [OF a,
      of "''Submission approved after review''" 0 three_items sample_page 2 "Inr full_patch"]
  from th have c1: "apply_status_patch
        \<lparr> patch_review_id = 7, patch_status = approved,
          patch_overall_notes = ''Submission approved after review'' \<rparr>
        (sample_review\<lparr>overall_progress := 0\<rparr>)
      = Some (sample_review\<lparr>overall_progress := 0, status := approved,
                overall_notes := ''Submission approved after review''\<rparr>)"
    unfolding i by (rule conjunct1)
  from th t ar have c2:
    "approve_click (sample_page\<lparr>activeReview := Some (sample_review\<lparr>overall_progress := 0\<rparr>)\<rparr>)
      = Some \<lparr> patch_review_id = 7, patch_status = approved,
               patch_overall_notes = ''Submission approved after review'' \<rparr>"
    unfolding i by blast
  from th ar have c3:
    "map_option status (activeReview (handleChecklistUpdate 2 (Inr full_patch) sample_page))
      = Some draft"
    unfolding st by blast
  show ?thesis by (intro conjI) (rule a c1 t ar c2 c3)+
qed

text \<open>
  C9. A new round is started only when the submission has no round, or its latest
  round is terminal or was abandoned. The new round's number is larger than every
  earlier one, so the numbers stay strictly increasing and none is used twice; when the
  rounds were numbered from 1 it is the number the page asks for, one more than the
  number of reviews it holds.
\<close>

theorem review_rounds_increase:
  assumes "start_round abandoned rid reviewer items rounds = Some rounds'"
  shows "(rounds = [] \<or> terminal (status (last rounds)) \<or> abandoned (last rounds))
    \<and> rounds' = rounds @ [last rounds']
    \<and> (\<forall>r \<in> set rounds. review_round r < review_round (last rounds'))
    \<and> (sorted_wrt (<) (map review_round rounds) \<longrightarrow> sorted_wrt (<) (map review_round rounds'))
    \<and> (distinct (map review_round rounds) \<longrightarrow> distinct (map review_round rounds'))
    \<and> (map review_round rounds = [1..<Suc (length rounds)] \<and> reviews p = rounds \<longrightarrow>
          review_round (last rounds') = req_review_round (create_request p))"
proof -
  from assms have guard: "rounds = [] \<or> terminal (status (last rounds)) \<or> abandoned (last rounds)"
    by (simp add: start_round_def split: if_splits)
  from assms have eq: "rounds' = rounds @ [seeded rid (next_round rounds) reviewer items]"
    by (simp add: start_round_def split: if_splits)
  then have l: "last rounds' = seeded rid (next_round rounds) reviewer items" by simp
  have rd: "review_round (last rounds') = next_round rounds" by (simp add: l seeded_def)
  have gt: "\<forall>r \<in> set rounds. review_round r < review_round (last rounds')"
    by (simp add: rd next_round_greater)
  have srt: "sorted_wrt (<) (map review_round rounds) \<longrightarrow> sorted_wrt (<) (map review_round rounds')"
    using gt by (simp add: eq sorted_wrt_append l)
  have dst: "distinct (map review_round rounds) \<longrightarrow> distinct (map review_round rounds')"
    using gt by (auto simp: eq l)
  have cnt: "map review_round rounds = [1..<Suc (length rounds)] \<and> reviews p = rounds \<longrightarrow>
      review_round (last rounds') = req_review_round (create_request p)"
    by (simp add: rd create_request_def next_round_counting)
  show ?thesis using guard eq l gt srt dst cnt by simp
qed

theorem review_rounds_increase_witness:
  "start_round never_abandoned 8 ''Kevin Admin'' three_items first_round = Some two_rounds
   \<and> terminal (status (last first_round))
   \<and> review_round (last two_rounds) = 2
   \<and> sorted_wrt (<) (map review_round two_rounds)
   \<and> distinct (map review_round two_rounds)
   \<and> review_round (last two_rounds)
        = req_review_round (create_request (sample_page\<lparr>reviews := first_round\<rparr>))
   \<and> start_round never_abandoned 9 ''Kevin Admin'' three_items two_rounds = None"
proof -
  have a: "start_round never_abandoned 8 ''Kevin Admin'' three_items first_round = Some two_rounds"
    by (simp add: start_round_def first_round_def two_rounds_def terminal_def next_round_def
        seeded_def)
  note th = review_rounds_increase [OF a, of "sample_page\<lparr>reviews := first_round\<rparr>"]
  have s0: "sorted_wrt (<) (map review_round first_round)" by (simp add: first_round_def)
  have d0: "distinct (map review_round first_round)" by (simp add: first_round_def)
  have m0: "map review_round first_round = [1..<Suc (length first_round)]
      \<and> reviews (sample_page\<lparr>reviews := first_round\<rparr>) = first_round"
    by (simp add: first_round_def seeded_def)
  have t: "terminal (status (last first_round))"
    by (simp add: first_round_def terminal_def)
  have r: "review_round (last two_rounds) = 2"
    by (simp add: two_rounds_def seeded_def)
  from th s0 have c1: "sorted_wrt (<) (map review_round two_rounds)" by blast
  from th d0 have c2: "distinct (map review_round two_rounds)" by blast
  from th m0 have c3: "review_round (last two_rounds)
      = req_review_round (create_request (sample_page\<lparr>reviews := first_round\<rparr>))"
    by blast
  have n: "start_round never_abandoned 9 ''Kevin Admin'' three_items two_rounds = None"
    by (simp add: start_round_def two_rounds_def first_round_def terminal_def
        never_abandoned_def seeded_def)
  show ?thesis by (intro conjI) (rule a t r c1 c2 c3 n)+
qed

end
